theory Spec2Isabelle
  imports Main "HOL-Library.Sublist"
begin

section \<open>Values, errors and dictionaries\<close>

text \<open>
  The program is dynamically typed: the arguments of the constructor are arbitrary
  Python objects, and \<^verbatim>\<open>type(x) is int\<close> holds for genuine integers only (a
  \<^verbatim>\<open>bool\<close> has type \<^verbatim>\<open>bool\<close>). Integers are unbounded; a float is kept as its
  mantissa and binary exponent (\<open>PFloat 5 (- 1)\<close> is 2.5).
\<close>

datatype pyval =
    PInt int
  | PBool bool
  | PFloat int int
  | PStr string
  | PNone
  | PTuple "pyval list"
  | PList "pyval list"

text \<open>
  The type tests of the constructor: \<^verbatim>\<open>type(x) is int\<close>, and
  \<^verbatim>\<open>type(frac) is tuple\<close> with \<^verbatim>\<open>len(frac) == 2\<close>; \<open>items\<close> are the elements of a
  tuple or list, \<open>well_typed\<close> the fractions that pass all four checks.
\<close>

fun is_int :: "pyval \<Rightarrow> bool" where
  "is_int (PInt _) = True"
| "is_int _ = False"

fun is_tuple2 :: "pyval \<Rightarrow> bool" where
  "is_tuple2 (PTuple xs) = (length xs = 2)"
| "is_tuple2 _ = False"

fun items :: "pyval \<Rightarrow> pyval list" where
  "items (PTuple xs) = xs"
| "items (PList xs) = xs"
| "items _ = []"

definition well_typed :: "pyval \<Rightarrow> bool" where
  "well_typed frac \<longleftrightarrow> is_tuple2 frac \<and> is_int (items frac ! 0) \<and> is_int (items frac ! 1)"

text \<open>
  The five \<^verbatim>\<open>raise RuntimeError(...)\<close> statements of \<^verbatim>\<open>FractionGame.__init__\<close>, in
  source order. The spec calls this error class ConfigurationError.
\<close>

datatype config_error =
    Start_not_int
  | Fraction_not_tuple
  | Fraction_not_pair
  | Numerator_not_int
  | Denominator_not_int

text \<open>
  Every way a call can fail to return a value. \<open>OverflowError\<close> is what
  \<^verbatim>\<open>a**0.5\<close> raises when the integer \<^verbatim>\<open>a\<close> is too large to convert to a double,
  \<open>TypeError\<close> what \<^verbatim>\<open>int(a**0.5)\<close> raises for a negative \<^verbatim>\<open>a\<close> (the power is a
  complex number);
  ZeroDivisionError comes from \<^verbatim>\<open>%\<close> by 0, IndexError from \<^verbatim>\<open>self.N[-1]\<close> on an empty
  trace, UnboundLocalError from reading \<^verbatim>\<open>endloop\<close> before it is assigned, ValueError
  from \<^verbatim>\<open>chr\<close>; \<open>Diverges\<close> stands for a loop that never ends.
\<close>

datatype error =
    RuntimeError config_error
  | OverflowError
  | TypeError
  | ZeroDivisionError
  | IndexError
  | UnboundLocalError
  | ValueError
  | Diverges

text \<open>
  A Python \<^verbatim>\<open>dict\<close> with integer keys and values keeps its keys in insertion order;
  assigning to a key that is present keeps the key's position.
\<close>

type_synonym dict = "(int \<times> int) list"

fun dict_set :: "dict \<Rightarrow> int \<Rightarrow> int \<Rightarrow> dict" where
  "dict_set [] k v = [(k, v)]"
| "dict_set ((k', v') # d) k v =
     (if k' = k then (k', v) # d else (k', v') # dict_set d k v)"

definition dict_keys :: "dict \<Rightarrow> int list" where
  "dict_keys d = map fst d"

section \<open>The factorizer: \<^verbatim>\<open>f_int.factorize\<close>\<close>

text \<open>
  \<^verbatim>\<open>if not i in factors: factors[i] = 1  else: factors[i] += 1\<close>
\<close>

definition count_factor :: "dict \<Rightarrow> int \<Rightarrow> dict" where
  "count_factor factors i =
     (case map_of factors i of
        None \<Rightarrow> dict_set factors i 1
      | Some c \<Rightarrow> dict_set factors i (c + 1))"

text \<open>
  The inner loop \<^verbatim>\<open>while a % i == 0: ...; a //= i\<close>. Nothing in the loop itself
  bounds it (it spins forever at \<^verbatim>\<open>a = 0\<close>), so the model returns an option and
  \<open>None\<close> is the run that never ends. Python's \<^verbatim>\<open>%\<close> and \<^verbatim>\<open>//\<close> on integers round
  towards minus infinity, as \<open>mod\<close> and \<open>div\<close> on \<^typ>\<open>int\<close> do.
\<close>

partial_function (option) divide_out :: "int \<Rightarrow> int \<Rightarrow> dict \<Rightarrow> (int \<times> dict) option" where
  "divide_out i a factors =
     (if a mod i = 0 then divide_out i (a div i) (count_factor factors i)
      else Some (a, factors))"

declare divide_out.simps [code]

text \<open>
  The outer loop \<^verbatim>\<open>for i in range(2, stop)\<close>; the range is fixed before the loop
  starts, while \<^verbatim>\<open>a\<close> shrinks inside it.
\<close>

function trial_division :: "int \<Rightarrow> int \<Rightarrow> int \<Rightarrow> dict \<Rightarrow> (int \<times> dict) option" where
  "trial_division i stop a factors =
     (if i < stop then
        (case divide_out i a factors of
           None \<Rightarrow> None
         | Some (a', factors') \<Rightarrow> trial_division (i + 1) stop a' factors')
      else Some (a, factors))"
  by pat_completeness auto
termination
  by (relation "measure (\<lambda>(i, stop, a, factors). nat (stop - i))") auto

text \<open>
  \<^verbatim>\<open>int(a**0.5)\<close>. The integer \<^verbatim>\<open>a\<close> is first converted to a double (nearest,
  ties to even): the conversion raises OverflowError when the result would be
  \<open>2 ^ 1024\<close> or more in absolute value, that is from \<open>2 ^ 1024 - 2 ^ 970\<close> on. A
  negative double to the power 0.5 is a complex number, which \<^verbatim>\<open>int\<close> refuses with
  TypeError. CPython returns 0.0 and 1.0 for the bases 0 and 1 without calling the C
  library. For every other base the result is the truncation of what the C library's
  \<^verbatim>\<open>pow\<close> returns, a double near the square root of the converted base: that
  function is not part of the repository and is not correctly rounded in general, so
  it is the parameter \<open>root\<close> of the model, \<open>root a\<close> standing for \<^verbatim>\<open>int(a**0.5)\<close>.
  Nothing is assumed of it; a lemma that needs the root to be large enough says so.
\<close>

definition overflow_bound :: int where
  "overflow_bound = 2 ^ 1024 - 2 ^ 970"

definition int_pow_half :: "(int \<Rightarrow> int) \<Rightarrow> int \<Rightarrow> error + int" where
  "int_pow_half root a =
     (if overflow_bound \<le> \<bar>a\<bar> then Inl OverflowError
      else if a < 0 then Inl TypeError
      else if a = 0 then Inr 0
      else if a = 1 then Inr 1
      else Inr (root a))"

text \<open>
  \<^verbatim>\<open>factorize(self, a)\<close>: trial division by 2, 3, ..., \<^verbatim>\<open>int(a**0.5)\<close>, then the
  residual factor, if it is larger than 1, is counted once. The factor loop that
  follows the bound is kept apart as \<open>factorize_upto\<close>.
\<close>

definition factorize_upto :: "int \<Rightarrow> int \<Rightarrow> error + dict" where
  "factorize_upto r a =
     (case trial_division 2 (r + 1) a [] of
        None \<Rightarrow> Inl Diverges
      | Some (a', factors) \<Rightarrow>
          Inr (if a' > 1 then count_factor factors a' else factors))"

definition factorize :: "(int \<Rightarrow> int) \<Rightarrow> int \<Rightarrow> error + dict" where
  "factorize root a =
     (case int_pow_half root a of
        Inl e \<Rightarrow> Inl e
      | Inr r \<Rightarrow> factorize_upto r a)"

text \<open>
  The exact integer square root, the largest \<open>r\<close> with \<open>r * r \<le> a\<close>. It is the value
  of \<^verbatim>\<open>int(a**0.5)\<close> on the small numbers of the examples below (\<^verbatim>\<open>int(360**0.5)\<close> is
  18), where it is used for \<open>root\<close>.
\<close>

function sqrt_search :: "int \<Rightarrow> int \<Rightarrow> int" where
  "sqrt_search r a = (if (r + 1) * (r + 1) \<le> a then sqrt_search (r + 1) a else r)"
  by pat_completeness auto
termination
proof (relation "measure (\<lambda>(r, a). nat (a - r))")
  show "wf (measure (\<lambda>(r, a). nat (a - r)))" by simp
next
  fix r a :: int
  assume h: "(r + 1) * (r + 1) \<le> a"
  have "r + 1 \<le> (r + 1) * (r + 1)"
  proof (cases "0 \<le> r + 1")
    case True
    then show ?thesis using mult_left_mono [of 1 "r + 1" "r + 1"]
      by (cases "r + 1 = 0") auto
  next
    case False
    then have "r + 1 \<le> 0" by simp
    moreover have "0 \<le> (r + 1) * (r + 1)" by simp
    ultimately show ?thesis by linarith
  qed
  with h have "r + 1 \<le> a" by linarith
  then show "((r + 1, a), (r, a)) \<in> measure (\<lambda>(r, a). nat (a - r))" by simp
qed

definition exact_root :: "int \<Rightarrow> int" where
  "exact_root a = sqrt_search 0 a"

text \<open>
  The integers on which the float root does no harm to \<^verbatim>\<open>factorize\<close>: \<open>a\<close> is
  non-negative and converts to a double, and \<^verbatim>\<open>int(a**0.5)\<close> is not below the integer
  square root of \<open>a\<close>.
\<close>

definition accurate :: "(int \<Rightarrow> int) \<Rightarrow> int \<Rightarrow> bool" where
  "accurate root a \<longleftrightarrow>
     0 \<le> a \<and> a < overflow_bound \<and> 0 \<le> root a \<and> a < (root a + 1) * (root a + 1)"

text \<open>The number a factor dictionary stands for: the product of \<open>prime ^ exponent\<close>.\<close>

definition dict_product :: "dict \<Rightarrow> int" where
  "dict_product d = prod_list (map (\<lambda>(p, e). p ^ nat e) d)"

text \<open>Primality of an integer, by trial: no divisor from 2 up to \<open>p - 1\<close>.\<close>

definition is_prime :: "int \<Rightarrow> bool" where
  "is_prime p \<longleftrightarrow> 1 < p \<and> (\<forall>d \<in> {2..<p}. \<not> d dvd p)"

text \<open>
  The spec's side of the register set: the distinct primes that appear in the
  factorization of \<open>n\<close>, that is the primes from 2 to \<open>n\<close> that divide \<open>n\<close>. For
  \<open>n \<ge> 1\<close> these are all prime divisors of \<open>n\<close>; 0 has none, by the spec's convention
  that its factorization is empty.
\<close>

definition prime_divisors :: "int \<Rightarrow> int set" where
  "prime_divisors n = {p \<in> {2..n}. is_prime p \<and> p dvd n}"

section \<open>The engine: \<^verbatim>\<open>FractionGame\<close>\<close>

text \<open>
  The four attributes of an engine object: the program \<^verbatim>\<open>self.f\<close> (a tuple of pairs),
  the trace \<^verbatim>\<open>self.N\<close>, the indices of the fractions applied
  \<^verbatim>\<open>self.transitions\<close>, and the register dictionary \<^verbatim>\<open>self.registers\<close>.
\<close>

record game =
  f :: "(int \<times> int) list"
  N :: "int list"
  transitions :: "nat list"
  registers :: dict

text \<open>
  The validation loop of \<^verbatim>\<open>__init__\<close> over \<^verbatim>\<open>args\<close>: the four checks in source
  order, the first failure raises. What passes is a tuple of two integers, kept as a
  pair (\<^verbatim>\<open>self.f = tuple(frac for frac in args)\<close>).
\<close>

fun check_fractions :: "pyval list \<Rightarrow> error + (int \<times> int) list" where
  "check_fractions [] = Inr []"
| "check_fractions (frac # args) =
     (case frac of
        PTuple xs \<Rightarrow>
          (if length xs \<noteq> 2 then Inl (RuntimeError Fraction_not_pair)
           else (case xs ! 0 of
                   PInt n \<Rightarrow>
                     (case xs ! 1 of
                        PInt d \<Rightarrow>
                          (case check_fractions args of
                             Inl e \<Rightarrow> Inl e
                           | Inr fs \<Rightarrow> Inr ((n, d) # fs))
                      | _ \<Rightarrow> Inl (RuntimeError Denominator_not_int))
                 | _ \<Rightarrow> Inl (RuntimeError Numerator_not_int)))
      | _ \<Rightarrow> Inl (RuntimeError Fraction_not_tuple))"

text \<open>
  \<^verbatim>\<open>get_registers\<close>: \<^verbatim>\<open>for factor in numerator: registers[factor] = 0\<close>, the same
  for the denominator, for every fraction in order. \<^verbatim>\<open>f_int(x).factors\<close> is
  \<^verbatim>\<open>factorize(x)\<close>, whose error ends the call.
\<close>

definition zero_keys :: "dict \<Rightarrow> dict \<Rightarrow> dict" where
  "zero_keys factors regs = fold (\<lambda>factor r. dict_set r factor 0) (dict_keys factors) regs"

fun registers_loop :: "(int \<Rightarrow> int) \<Rightarrow> (int \<times> int) list \<Rightarrow> dict \<Rightarrow> error + dict" where
  "registers_loop root [] regs = Inr regs"
| "registers_loop root ((n, d) # fs) regs =
     (case factorize root n of
        Inl e \<Rightarrow> Inl e
      | Inr numerator \<Rightarrow>
          (case factorize root d of
             Inl e \<Rightarrow> Inl e
           | Inr denominator \<Rightarrow>
               registers_loop root fs (zero_keys denominator (zero_keys numerator regs))))"

definition get_registers :: "(int \<Rightarrow> int) \<Rightarrow> game \<Rightarrow> error + dict" where
  "get_registers root s = registers_loop root (f s) []"

text \<open>
  \<^verbatim>\<open>__init__(self, *args, N_0)\<close> as a transformer of the object: it returns the error
  raised, if any, and the attributes as they stand when the call ends. The three
  assignments to \<^verbatim>\<open>self.f\<close>, \<^verbatim>\<open>self.N\<close> and \<^verbatim>\<open>self.transitions\<close> come after
  all checks and before \<^verbatim>\<open>get_registers\<close>.
\<close>

definition init :: "(int \<Rightarrow> int) \<Rightarrow> game \<Rightarrow> pyval list \<Rightarrow> pyval \<Rightarrow> error option \<times> game" where
  "init root self args N_0 =
     (case N_0 of
        PInt n0 \<Rightarrow>
          (case check_fractions args of
             Inl e \<Rightarrow> (Some e, self)
           | Inr fs \<Rightarrow>
               (let s1 = self\<lparr>f := fs, N := [n0], transitions := []\<rparr> in
                case get_registers root s1 of
                  Inl e \<Rightarrow> (Some e, s1)
                | Inr regs \<Rightarrow> (None, s1\<lparr>registers := regs\<rparr>)))
      | _ \<Rightarrow> (Some (RuntimeError Start_not_int), self))"

text \<open>
  \<^verbatim>\<open>FractionGame(*args, N_0=...)\<close>: \<^verbatim>\<open>__init__\<close> on a fresh object, which is
  returned only if no error was raised. A fresh object has no attributes; \<open>blank\<close>
  stands for it, and \<open>init\<close> reads none of its fields before writing them.
\<close>

definition blank :: game where
  "blank = \<lparr>f = [], N = [], transitions = [], registers = []\<rparr>"

definition new_game :: "(int \<Rightarrow> int) \<Rightarrow> pyval list \<Rightarrow> pyval \<Rightarrow> error + game" where
  "new_game root args N_0 =
     (case init root blank args N_0 of
        (None, s) \<Rightarrow> Inr s
      | (Some e, s) \<Rightarrow> Inl e)"

text \<open>
  \<^verbatim>\<open>run_step\<close> at the default verbosity (\<^verbatim>\<open>verbose=0\<close>). The other levels only
  add \<^verbatim>\<open>print\<close> calls, which are left out; the message of level 1 renders the
  factorization of the new state, so it needs that state to be non-negative. The loop
  \<^verbatim>\<open>for i, (numerator, denominator) in enumerate(self.f)\<close> is \<open>scan\<close>, which returns
  the new state and the index of the first fraction that divides evenly, \<open>None\<close> when
  the loop runs out, and the error of \<^verbatim>\<open>% denominator\<close> at a zero denominator.
  \<^verbatim>\<open>self.N[-1]\<close> is read in the loop body only, so an empty trace raises IndexError
  only if the program has a fraction.
\<close>

fun scan :: "(int \<times> int) list \<Rightarrow> nat \<Rightarrow> int \<Rightarrow> error + (int \<times> nat) option" where
  "scan [] i cur = Inr None"
| "scan ((numerator, denominator) # fs) i cur =
     (if denominator = 0 then Inl ZeroDivisionError
      else if (numerator * cur) mod denominator = 0
        then Inr (Some ((numerator * cur) div denominator, i))
      else scan fs (Suc i) cur)"

definition run_step :: "game \<Rightarrow> error + game" where
  "run_step s =
     (if f s = [] then Inr (s\<lparr>N := N s @ [0]\<rparr>)
      else if N s = [] then Inl IndexError
      else (case scan (f s) 0 (last (N s)) of
              Inl e \<Rightarrow> Inl e
            | Inr None \<Rightarrow> Inr (s\<lparr>N := N s @ [0]\<rparr>)
            | Inr (Some (next_N, i)) \<Rightarrow>
                Inr (s\<lparr>N := N s @ [next_N], transitions := transitions s @ [i]\<rparr>)))"

text \<open>
  \<^verbatim>\<open>run(self, N_0=None, verbose=0, max_steps=100)\<close>. The statement
  \<^verbatim>\<open>if N_0: self.N = [N_0]\<close> is \<open>reset_trace\<close> (\<^verbatim>\<open>None\<close> and \<^verbatim>\<open>0\<close> are falsy);
  \<^verbatim>\<open>if len(self.N) + 1 > max_steps: self.N.append(0)\<close> is \<open>cap\<close>; the
  \<^verbatim>\<open>while self.N[-1] is not 0\<close> loop is \<open>run_loop\<close>. On integers \<^verbatim>\<open>is not 0\<close>
  is read as \<open>\<noteq> 0\<close> (CPython keeps one object for the integer 0).
\<close>

definition reset_trace :: "int option \<Rightarrow> game \<Rightarrow> game" where
  "reset_trace N_0 s =
     (case N_0 of
        None \<Rightarrow> s
      | Some x \<Rightarrow> if x \<noteq> 0 then s\<lparr>N := [x]\<rparr> else s)"

definition cap :: "int \<Rightarrow> game \<Rightarrow> game" where
  "cap max_steps s =
     (if int (length (N s)) + 1 > max_steps then s\<lparr>N := N s @ [0]\<rparr> else s)"

function run_loop :: "int \<Rightarrow> game \<Rightarrow> error + game" where
  "run_loop max_steps s =
     (if N s = [] then Inl IndexError
      else if last (N s) = 0 then Inr s
      else (case run_step s of
              Inl e \<Rightarrow> Inl e
            | Inr s1 \<Rightarrow> run_loop max_steps (cap max_steps s1)))"
  by pat_completeness auto
termination
proof (relation "measure (\<lambda>(max_steps, s).
    if last (N s) = 0 then 0 else 1 + nat (max_steps - int (length (N s))))")
  show "wf (measure (\<lambda>(max_steps, s).
    if last (N s) = 0 then 0 else 1 + nat (max_steps - int (length (N s)))))"
    by simp
next
  fix max_steps :: int and s s1 :: game
  assume ne: "N s \<noteq> []" and nz: "last (N s) \<noteq> 0" and st: "run_step s = Inr s1"
  from st have len: "length (N s1) = Suc (length (N s))"
    by (auto simp: run_step_def split: if_splits sum.splits option.splits)
  show "((max_steps, cap max_steps s1), (max_steps, s)) \<in> measure (\<lambda>(max_steps, s).
    if last (N s) = 0 then 0 else 1 + nat (max_steps - int (length (N s))))"
    using len nz by (auto simp: cap_def)
qed

definition run :: "int option \<Rightarrow> int \<Rightarrow> game \<Rightarrow> error + game" where
  "run N_0 max_steps s = run_loop max_steps (reset_trace N_0 s)"

text \<open>\<open>k\<close> calls of \<^verbatim>\<open>run_step\<close> in a row, stopping at the first error.\<close>

fun steps :: "nat \<Rightarrow> game \<Rightarrow> error + game" where
  "steps 0 s = Inr s"
| "steps (Suc k) s = (case run_step s of Inl e \<Rightarrow> Inl e | Inr s1 \<Rightarrow> steps k s1)"

text \<open>
  The state of the loop after one pass of its body: \<open>stops max_steps s1\<close> says that the
  pass whose \<^verbatim>\<open>run_step\<close> produced \<open>s1\<close> is the last one. Either the step appended 0,
  or \<^verbatim>\<open>len(self.N) + 1 > max_steps\<close> holds and the body appends 0 itself; in both cases
  the loop test \<^verbatim>\<open>self.N[-1] is not 0\<close> then fails.
\<close>

definition stops :: "int \<Rightarrow> game \<Rightarrow> bool" where
  "stops max_steps s1 \<longleftrightarrow> last (N s1) = 0 \<or> int (length (N s1)) + 1 > max_steps"


section \<open>The synthesizer: \<^verbatim>\<open>python_equivalent\<close>\<close>

text \<open>
  The generated text is a list of lines joined by newlines. \<^verbatim>\<open>str\<close> of an integer
  is its decimal numeral; \<^verbatim>\<open>chr(i+65)\<close> is the letter of fraction \<open>i\<close>, given here
  in UTF-8 for code points beyond ASCII, and a ValueError beyond the last code point.
\<close>

definition tab :: string where
  "tab = [CHR 0x09]"

definition newline :: string where
  "newline = [CHR 0x0A]"

fun str_nat :: "nat \<Rightarrow> string" where
  "str_nat n =
     (if n < 10 then [''0123456789'' ! n]
      else str_nat (n div 10) @ [''0123456789'' ! (n mod 10)])"

definition str_int :: "int \<Rightarrow> string" where
  "str_int i = (if i < 0 then CHR ''-'' # str_nat (nat (- i)) else str_nat (nat i))"

definition chr_py :: "nat \<Rightarrow> error + string" where
  "chr_py c =
     (if c < 0x80 then Inr [char_of c]
      else if c < 0x800 then Inr [char_of (0xC0 + c div 64), char_of (0x80 + c mod 64)]
      else if c < 0x10000 then
        Inr [char_of (0xE0 + c div 4096), char_of (0x80 + c div 64 mod 64),
             char_of (0x80 + c mod 64)]
      else if c < 0x110000 then
        Inr [char_of (0xF0 + c div 262144), char_of (0x80 + c div 4096 mod 64),
             char_of (0x80 + c div 64 mod 64), char_of (0x80 + c mod 64)]
      else Inl ValueError)"

fun join :: "string \<Rightarrow> string list \<Rightarrow> string" where
  "join sep [] = []"
| "join sep [x] = x"
| "join sep (x # y # ys) = x @ sep @ join sep (y # ys)"

text \<open>
  \<^verbatim>\<open>for factor in N_0_factors.keys(): registers[factor] = N_0_factors[factor]\<close>, where
  \<^verbatim>\<open>registers\<close> is \<^verbatim>\<open>self.registers\<close> itself: the engine's dictionary is updated.
\<close>

definition overlay :: "dict \<Rightarrow> dict \<Rightarrow> dict" where
  "overlay N_0_factors regs = fold (\<lambda>(factor, e) r. dict_set r factor e) N_0_factors regs"

text \<open>
  One iteration of \<^verbatim>\<open>for i, f in enumerate(self.f)\<close> emits a header line
  (\<^verbatim>\<open>if\<close> for the first fraction, \<^verbatim>\<open>else\<close> for a later one with denominator 1,
  \<^verbatim>\<open>elif\<close> otherwise) and the body lines. \<^verbatim>\<open>endloop\<close> is assigned \<^verbatim>\<open>False\<close> at
  the start of every iteration, so after the loop it tells whether the last fraction
  was emitted as \<^verbatim>\<open>else\<close>; it is unbound (\<open>None\<close>) when the program is empty.
\<close>

definition conditions_of :: "dict \<Rightarrow> string list" where
  "conditions_of denominator =
     map (\<lambda>(factor, e). ''registers['' @ str_int factor @ ''] >= '' @ str_int e) denominator"

definition body_of :: "int \<Rightarrow> dict \<Rightarrow> dict \<Rightarrow> string list" where
  "body_of n numerator denominator =
     (if n = 0 then [tab @ tab @ ''registers.clear()'']
      else map (\<lambda>(factor, e). tab @ tab @ ''registers['' @ str_int factor @ ''] -= '' @ str_int e)
             denominator
         @ map (\<lambda>(factor, e). tab @ tab @ ''registers['' @ str_int factor @ ''] += '' @ str_int e)
             numerator)"

definition header_of :: "nat \<Rightarrow> int \<Rightarrow> int \<Rightarrow> string \<Rightarrow> string list \<Rightarrow> string \<times> bool" where
  "header_of i n d letter conditions =
     (let note = '' # fraction '' @ letter @ '' ('' @ str_int n @ ''/'' @ str_int d @ '')'' in
      if i = 0 then (tab @ ''if ('' @ join '') & ('' conditions @ ''):'' @ note, False)
      else if d = 1 then (tab @ ''else:'' @ note, True)
      else (tab @ ''elif ('' @ join '') & ('' conditions @ ''):'' @ note, False))"

fun branches :: "(int \<Rightarrow> int) \<Rightarrow> nat \<Rightarrow> (int \<times> int) list \<Rightarrow> string list \<Rightarrow> bool option
    \<Rightarrow> error + (string list \<times> bool option)" where
  "branches root i [] python_program endloop = Inr (python_program, endloop)"
| "branches root i ((n, d) # fs) python_program endloop =
     (case factorize root n of
        Inl e \<Rightarrow> Inl e
      | Inr numerator \<Rightarrow>
          (case factorize root d of
             Inl e \<Rightarrow> Inl e
           | Inr denominator \<Rightarrow>
               (case chr_py (i + 65) of
                  Inl e \<Rightarrow> Inl e
                | Inr letter \<Rightarrow>
                    (let (header, endloop') = header_of i n d letter (conditions_of denominator)
                     in branches root (Suc i) fs
                          (python_program @ [header] @ body_of n numerator denominator)
                          (Some endloop')))))"

text \<open>
  \<^verbatim>\<open>python_equivalent(self, max_steps)\<close>: the lines in \<^verbatim>\<open>python_program\<close>, and the
  engine with its updated registers.
\<close>

definition python_equivalent_lines :: "(int \<Rightarrow> int) \<Rightarrow> int \<Rightarrow> game
    \<Rightarrow> (error + string list) \<times> game" where
  "python_equivalent_lines root max_steps s =
     (case N s of
        [] \<Rightarrow> (Inl IndexError, s)
      | n0 # _ \<Rightarrow>
          (case factorize root n0 of
             Inl e \<Rightarrow> (Inl e, s)
           | Inr N_0_factors \<Rightarrow>
               (let regs = overlay N_0_factors (registers s);
                    s' = s\<lparr>registers := regs\<rparr>;
                    start = [''# Starting conditions'', ''registers = {}'']
                      @ map (\<lambda>(factor, v). ''registers['' @ str_int factor @ ''] = '' @ str_int v)
                          (sort_key fst regs)
                      @ [newline @ ''# Main Loop'', ''counter = 0'',
                         ''while sum(registers.values()) > 0:'', tab @ ''counter += 1'']
                in case branches root 0 (f s) start None of
                     Inl e \<Rightarrow> (Inl e, s')
                   | Inr (python_program, None) \<Rightarrow> (Inl UnboundLocalError, s')
                   | Inr (python_program, Some endloop) \<Rightarrow>
                       (Inr (python_program
                          @ (if \<not> endloop then [tab @ ''else:'', tab @ tab @ ''registers.clear()'']
                             else [])
                          @ [tab @ ''print(' * '.join([str(factor) + '^' + str(registers[factor]) for factor in registers.keys()]))'',
                             tab @ ''if counter > '' @ str_int max_steps @ '':'',
                             tab @ tab @ ''break'']), s'))))"

definition python_equivalent :: "(int \<Rightarrow> int) \<Rightarrow> int \<Rightarrow> game \<Rightarrow> (error + string) \<times> game" where
  "python_equivalent root max_steps s =
     (case python_equivalent_lines root max_steps s of
        (Inl e, s') \<Rightarrow> (Inl e, s')
      | (Inr python_program, s') \<Rightarrow> (Inr (join newline python_program), s'))"


section \<open>Properties of the factorizer\<close>

declare sqrt_search.simps [simp del]

declare trial_division.simps [simp del]

lemma sqrt_search_spec:
  "0 \<le> r \<Longrightarrow> r * r \<le> a \<Longrightarrow>
   r \<le> sqrt_search r a \<and> sqrt_search r a * sqrt_search r a \<le> a \<and>
   a < (sqrt_search r a + 1) * (sqrt_search r a + 1)"
proof (induction r a rule: sqrt_search.induct)
  case (1 r a)
  show ?case
  proof (cases "(r + 1) * (r + 1) \<le> a")
    case True
    then have "sqrt_search r a = sqrt_search (r + 1) a"
      by (subst sqrt_search.simps) simp
    with 1 True show ?thesis by auto
  next
    case False
    then have "sqrt_search r a = r"
      by (subst sqrt_search.simps) simp
    with 1 False show ?thesis by auto
  qed
qed

lemma exact_root_spec:
  "0 \<le> a \<Longrightarrow>
   0 \<le> exact_root a \<and> exact_root a * exact_root a \<le> a \<and> a < (exact_root a + 1) * (exact_root a + 1)"
  using sqrt_search_spec [of 0 a] by (simp add: exact_root_def)

lemma count_factor_Nil: "count_factor [] i = [(i, 1)]"
  by (simp add: count_factor_def)

lemma count_factor_Cons:
  "count_factor ((k, v) # d) i = (if k = i then (k, v + 1) # d else (k, v) # count_factor d i)"
  by (simp add: count_factor_def split: option.splits)

lemma count_factor_keys: "set (map fst (count_factor d i)) = insert i (set (map fst d))"
proof (induction d)
  case Nil
  then show ?case by (simp add: count_factor_Nil)
next
  case (Cons x d)
  obtain k v where x: "x = (k, v)" by (cases x)
  with Cons show ?case by (simp add: count_factor_Cons insert_commute)
qed

lemma count_factor_distinct:
  "distinct (map fst d) \<Longrightarrow> distinct (map fst (count_factor d i))"
proof (induction d)
  case Nil
  then show ?case by (simp add: count_factor_Nil)
next
  case (Cons x d)
  obtain k v where x: "x = (k, v)" by (cases x)
  with Cons show ?case by (auto simp add: count_factor_Cons count_factor_keys simp del: set_map)
qed

lemma dict_product_count_factor:
  "\<forall>(p, e) \<in> set d. 0 \<le> e \<Longrightarrow> dict_product (count_factor d i) = dict_product d * i"
proof (induction d)
  case Nil
  then show ?case by (simp add: count_factor_Nil dict_product_def)
next
  case (Cons x d)
  obtain k v where x: "x = (k, v)" by (cases x)
  with Cons.prems have v: "0 \<le> v" by simp
  then have "nat (v + 1) = Suc (nat v)" by simp
  with Cons x show ?case
    by (auto simp: count_factor_Cons dict_product_def)
qed

lemma count_factor_entries:
  "\<forall>(p, e) \<in> set d. P p \<and> 1 \<le> e \<Longrightarrow> P i \<Longrightarrow>
   \<forall>(p, e) \<in> set (count_factor d i). P p \<and> 1 \<le> e"
  by (induction d) (auto simp: count_factor_Nil count_factor_Cons split: if_splits)


lemma divide_out_result:
  assumes "2 \<le> i" "1 \<le> a"
  shows "\<exists>k. divide_out i a fs = Some (a div i ^ k, ((\<lambda>d. count_factor d i) ^^ k) fs)
              \<and> i ^ k dvd a \<and> \<not> i dvd a div i ^ k"
  using assms
proof (induction "nat a" arbitrary: a fs rule: less_induct)
  case less
  show ?case
  proof (cases "a mod i = 0")
    case False
    then have "divide_out i a fs = Some (a, fs)"
      by (subst divide_out.simps) simp
    with False show ?thesis
      by (intro exI [of _ 0]) (simp add: dvd_eq_mod_eq_0)
  next
    case True
    then have d: "i dvd a" by (simp add: dvd_eq_mod_eq_0)
    then obtain q where q: "a = i * q" by (auto simp: dvd_def)
    have qpos: "1 \<le> q"
    proof (rule ccontr)
      assume "\<not> 1 \<le> q"
      then have "q \<le> 0" by simp
      with less.prems(1) have "i * q \<le> 0" by (simp add: mult_nonneg_nonpos)
      with q less.prems(2) show False by simp
    qed
    from q less.prems have aq: "a div i = q" by simp
    have "2 * q \<le> i * q" using less.prems(1) qpos by (intro mult_right_mono) simp_all
    with q qpos have "q < a" by simp
    with qpos have "nat q < nat a" by simp
    from less.hyps [OF this less.prems(1) qpos, of "count_factor fs i"]
    obtain k where k: "divide_out i q (count_factor fs i)
          = Some (q div i ^ k, ((\<lambda>d. count_factor d i) ^^ k) (count_factor fs i))"
        "i ^ k dvd q" "\<not> i dvd q div i ^ k" by blast
    have "divide_out i a fs = divide_out i q (count_factor fs i)"
      using True aq by (subst divide_out.simps) simp
    moreover have "q div i ^ k = a div i ^ Suc k"
      using aq less.prems zdiv_zmult2_eq [of "i ^ k" a i] by simp
    moreover have "((\<lambda>d. count_factor d i) ^^ k) (count_factor fs i)
         = ((\<lambda>d. count_factor d i) ^^ Suc k) fs"
      using funpow_swap1 [of "\<lambda>d. count_factor d i" k fs] by simp
    moreover have "i ^ Suc k dvd a" using k(2) q by simp
    ultimately show ?thesis using k by (intro exI [of _ "Suc k"]) simp
  qed
qed


lemma funpow_count_factor_keys:
  "set (map fst (((\<lambda>d. count_factor d i) ^^ k) fs)) =
     (if k = 0 then set (map fst fs) else insert i (set (map fst fs)))"
  by (induction k) (auto simp: count_factor_keys simp del: set_map)

lemma funpow_count_factor_distinct:
  "distinct (map fst fs) \<Longrightarrow> distinct (map fst (((\<lambda>d. count_factor d i) ^^ k) fs))"
  by (induction k) (simp_all add: count_factor_distinct)

lemma funpow_count_factor_entries:
  "\<forall>(p, e) \<in> set fs. P p \<and> 1 \<le> e \<Longrightarrow> (0 < k \<longrightarrow> P i) \<Longrightarrow>
   \<forall>(p, e) \<in> set (((\<lambda>d. count_factor d i) ^^ k) fs). P p \<and> 1 \<le> e"
proof (induction k)
  case 0
  then show ?case by simp
next
  case (Suc k)
  then have "\<forall>(p, e) \<in> set (((\<lambda>d. count_factor d i) ^^ k) fs). P p \<and> 1 \<le> e"
    by (cases k) simp_all
  moreover from Suc.prems have "P i" by simp
  ultimately show ?case using count_factor_entries [of _ P i] by simp
qed

lemma funpow_count_factor_product:
  assumes "\<forall>(p, e) \<in> set fs. 1 \<le> e"
  shows "dict_product (((\<lambda>d. count_factor d i) ^^ k) fs) = dict_product fs * i ^ k"
proof (induction k)
  case 0
  show ?case by simp
next
  case (Suc k)
  have "\<forall>(p, e) \<in> set (((\<lambda>d. count_factor d i) ^^ k) fs). True \<and> 1 \<le> e"
    using assms funpow_count_factor_entries [of fs "\<lambda>_. True" k i] by simp
  then have "\<forall>(p, e) \<in> set (((\<lambda>d. count_factor d i) ^^ k) fs). 0 \<le> e"
    by auto
  from dict_product_count_factor [OF this, of i] Suc show ?case by simp
qed

lemma is_prime_dvd: "is_prime p \<Longrightarrow> q dvd p \<Longrightarrow> 1 < q \<Longrightarrow> q = p"
proof (rule ccontr)
  assume p: "is_prime p" and q: "q dvd p" "1 < q" and ne: "q \<noteq> p"
  from p have "0 < p" by (simp add: is_prime_def)
  with q have "q \<le> p" by (simp add: zdvd_imp_le)
  with ne q have "q \<in> {2..<p}" by simp
  with p q show False by (simp add: is_prime_def)
qed

lemma is_prime_coprime: "is_prime p \<Longrightarrow> \<not> p dvd a \<Longrightarrow> coprime p a"
proof -
  assume p: "is_prime p" and nd: "\<not> p dvd a"
  from p have "p \<noteq> 0" by (auto simp: is_prime_def)
  then have "gcd p a \<noteq> 0" by simp
  moreover have "0 \<le> gcd p a" by simp
  ultimately have "gcd p a = 1 \<or> 1 < gcd p a" by linarith
  then show "coprime p a"
  proof
    assume "gcd p a = 1"
    then show ?thesis by (simp add: coprime_iff_gcd_eq_1)
  next
    assume "1 < gcd p a"
    with p have "gcd p a = p" by (intro is_prime_dvd) simp_all
    then have "p dvd a" by (metis gcd_dvd2)
    with nd show ?thesis by simp
  qed
qed

lemma is_prime_dvd_mult: "is_prime p \<Longrightarrow> p dvd a * b \<Longrightarrow> p dvd a \<or> p dvd b"
proof (cases "p dvd a")
  case True
  then show ?thesis by simp
next
  case False
  assume "is_prime p" "p dvd a * b"
  with False have "coprime p a" "p dvd a * b" by (simp_all add: is_prime_coprime)
  then have "p dvd b" by (simp add: coprime_dvd_mult_right_iff)
  then show ?thesis by simp
qed

lemma is_prime_dvd_power: "is_prime p \<Longrightarrow> p dvd a ^ k \<Longrightarrow> p dvd a"
proof (induction k)
  case 0
  then show ?case by (simp add: is_prime_def)
next
  case (Suc k)
  then show ?case using is_prime_dvd_mult [of p a "a ^ k"] by auto
qed

lemma is_prime_dvd_dict_product:
  "is_prime q \<Longrightarrow> q dvd dict_product d \<Longrightarrow> \<forall>(p, e) \<in> set d. is_prime p \<Longrightarrow>
   q \<in> set (map fst d)"
proof (induction d)
  case Nil
  then show ?case by (simp add: dict_product_def is_prime_def)
next
  case (Cons x d)
  obtain p e where x: "x = (p, e)" by (cases x)
  from Cons.prems x have "q dvd p ^ nat e * dict_product d"
    by (simp add: dict_product_def)
  with Cons.prems(1) have "q dvd p ^ nat e \<or> q dvd dict_product d"
    by (rule is_prime_dvd_mult)
  then show ?case
  proof
    assume "q dvd p ^ nat e"
    with Cons.prems(1) have "q dvd p" by (rule is_prime_dvd_power)
    moreover from Cons.prems x have "is_prime p" by simp
    moreover from Cons.prems(1) have "1 < q" by (simp add: is_prime_def)
    ultimately have "q = p" by (intro is_prime_dvd)
    with x show ?thesis by simp
  next
    assume "q dvd dict_product d"
    with Cons show ?thesis by simp
  qed
qed

lemma dict_product_key_dvd:
  "(p, e) \<in> set d \<Longrightarrow> 1 \<le> e \<Longrightarrow> p dvd dict_product d"
proof (induction d)
  case Nil
  then show ?case by simp
next
  case (Cons x d)
  show ?case
  proof (cases "x = (p, e)")
    case True
    from Cons.prems have "nat e = Suc (nat (e - 1))" by simp
    then have "p dvd p ^ nat e" by (simp del: power_Suc)
    with True show ?thesis by (simp add: dict_product_def)
  next
    case False
    with Cons have "p dvd dict_product d" by simp
    then show ?thesis by (simp add: dict_product_def)
  qed
qed


lemma trial_division_result:
  assumes "2 \<le> i" "1 \<le> a" "\<forall>(p, e) \<in> set fs. 2 \<le> p \<and> 1 \<le> e" "distinct (map fst fs)"
  shows "\<exists>a' fs'. trial_division i stop a fs = Some (a', fs') \<and> 1 \<le> a' \<and>
      dict_product fs' * a' = dict_product fs * a \<and>
      (\<forall>(p, e) \<in> set fs'. 2 \<le> p \<and> 1 \<le> e) \<and> distinct (map fst fs') \<and>
      ((\<forall>j. 2 \<le> j \<and> j < i \<longrightarrow> \<not> j dvd a) \<and> (\<forall>(p, e) \<in> set fs. is_prime p \<and> p < i) \<longrightarrow>
       (\<forall>j. 2 \<le> j \<and> j < max i stop \<longrightarrow> \<not> j dvd a') \<and>
       (\<forall>(p, e) \<in> set fs'. is_prime p \<and> p < max i stop))"
  using assms
proof (induction i stop a fs rule: trial_division.induct)
  case (1 i stop a fs)
  show ?case
  proof (cases "i < stop")
    case False
    then have "trial_division i stop a fs = Some (a, fs)"
      by (subst trial_division.simps) simp
    with False "1.prems" show ?thesis by (simp add: max_def)
  next
    case True
    from divide_out_result [OF "1.prems"(1,2), of fs]
    obtain k where k: "divide_out i a fs = Some (a div i ^ k, ((\<lambda>d. count_factor d i) ^^ k) fs)"
      "i ^ k dvd a" "\<not> i dvd a div i ^ k" by blast
    define a1 where "a1 = a div i ^ k"
    define fs1 where "fs1 = ((\<lambda>d. count_factor d i) ^^ k) fs"
    have a_eq: "a = i ^ k * a1" using k(2) by (simp add: a1_def)
    have ik: "0 < i ^ k" using "1.prems"(1) by simp
    have a1pos: "1 \<le> a1"
    proof (rule ccontr)
      assume "\<not> 1 \<le> a1"
      then have "a1 \<le> 0" by simp
      with ik have "i ^ k * a1 \<le> 0" by (simp add: mult_nonneg_nonpos)
      with a_eq "1.prems"(2) show False by simp
    qed
    have e0: "\<forall>(p, e) \<in> set fs. 1 \<le> e" using "1.prems"(3) by fastforce
    have e1: "\<forall>(p, e) \<in> set fs1. 2 \<le> p \<and> 1 \<le> e"
      using funpow_count_factor_entries [of fs "\<lambda>p. 2 \<le> p" k i] "1.prems"(1,3)
      by (simp add: fs1_def)
    have d1: "distinct (map fst fs1)"
      using "1.prems"(4) by (simp add: fs1_def funpow_count_factor_distinct)
    have p1: "dict_product fs1 * a1 = dict_product fs * a"
      using funpow_count_factor_product [OF e0, of k i] a_eq
      by (simp add: fs1_def)
    have td: "trial_division i stop a fs = trial_division (i + 1) stop a1 fs1"
      using True k(1) by (subst trial_division.simps) (simp add: a1_def fs1_def)
    have i1: "2 \<le> i + 1" using "1.prems"(1) by simp
    from "1.IH" [OF True k(1) [folded a1_def fs1_def] refl i1 a1pos e1 d1]
    obtain a' fs' where r:
      "trial_division (i + 1) stop a1 fs1 = Some (a', fs')" "1 \<le> a'"
      "dict_product fs' * a' = dict_product fs1 * a1"
      "\<forall>(p, e) \<in> set fs'. 2 \<le> p \<and> 1 \<le> e" "distinct (map fst fs')"
      "(\<forall>j. 2 \<le> j \<and> j < i + 1 \<longrightarrow> \<not> j dvd a1) \<and> (\<forall>(p, e) \<in> set fs1. is_prime p \<and> p < i + 1) \<longrightarrow>
       (\<forall>j. 2 \<le> j \<and> j < max (i + 1) stop \<longrightarrow> \<not> j dvd a') \<and>
       (\<forall>(p, e) \<in> set fs'. is_prime p \<and> p < max (i + 1) stop)"
      by blast
    have mx: "max (i + 1) stop = max i stop" using True by simp
    have sieve: "(\<forall>j. 2 \<le> j \<and> j < max i stop \<longrightarrow> \<not> j dvd a') \<and>
       (\<forall>(p, e) \<in> set fs'. is_prime p \<and> p < max i stop)"
      if nd: "\<forall>j. 2 \<le> j \<and> j < i \<longrightarrow> \<not> j dvd a"
        and pr: "\<forall>(p, e) \<in> set fs. is_prime p \<and> p < i"
    proof -
      have a1a: "a1 dvd a" using a_eq by simp
      have nd1: "\<forall>j. 2 \<le> j \<and> j < i + 1 \<longrightarrow> \<not> j dvd a1"
      proof (intro allI impI)
        fix j assume j: "2 \<le> j \<and> j < i + 1"
        show "\<not> j dvd a1"
        proof (cases "j = i")
          case True
          with k(3) show ?thesis by (simp add: a1_def)
        next
          case False
          with j have "2 \<le> j \<and> j < i" by simp
          with nd have "\<not> j dvd a" by blast
          with a1a show ?thesis using dvd_trans by blast
        qed
      qed
      have pi: "is_prime i" if "0 < k"
      proof -
        from that have "i dvd i ^ k" by (cases k) simp_all
        with k(2) have ia: "i dvd a" using dvd_trans by blast
        have "\<not> d dvd i" if "d \<in> {2..<i}" for d
        proof
          assume "d dvd i"
          with ia have "d dvd a" using dvd_trans by blast
          with nd that show False by simp
        qed
        with "1.prems"(1) show ?thesis by (simp add: is_prime_def)
      qed
      have "\<forall>(p, e) \<in> set fs. (is_prime p \<and> p < i + 1) \<and> 1 \<le> e"
        using pr e0 by fastforce
      moreover have "0 < k \<longrightarrow> is_prime i \<and> i < i + 1" using pi by simp
      ultimately have "\<forall>(p, e) \<in> set fs1. (is_prime p \<and> p < i + 1) \<and> 1 \<le> e"
        unfolding fs1_def by (rule funpow_count_factor_entries)
      then have "\<forall>(p, e) \<in> set fs1. is_prime p \<and> p < i + 1" by fastforce
      with nd1 r(6) mx show ?thesis by simp
    qed
    from td r p1 sieve show ?thesis by simp
  qed
qed


lemma residual_prime:
  assumes a: "1 < a" and r: "0 \<le> r" and bound: "a < (r + 1) * (r + 1)"
    and nd: "\<forall>j. 2 \<le> j \<and> j < max 2 (r + 1) \<longrightarrow> \<not> j dvd a"
  shows "is_prime a"
proof -
  have big: "r + 1 \<le> j" if "j dvd a" "2 \<le> j" for j
    using nd that by (cases "j < max 2 (r + 1)") auto
  have "\<not> d dvd a" if d: "d \<in> {2..<a}" for d
  proof
    assume "d dvd a"
    then obtain q where q: "a = d * q" by (auto simp: dvd_def)
    have "0 < q" using a d q zero_less_mult_pos [of d q] by simp
    moreover have "q \<noteq> 1" using q d by auto
    ultimately have q2: "2 \<le> q" by simp
    have "r + 1 \<le> d" using big [of d] \<open>d dvd a\<close> d by simp
    moreover have "r + 1 \<le> q" using big [of q] q q2 by simp
    ultimately have "(r + 1) * (r + 1) \<le> d * q" using r by (intro mult_mono) simp_all
    with q bound show False by simp
  qed
  with a show ?thesis by (simp add: is_prime_def)
qed

lemma factorize_upto_result:
  assumes n: "1 \<le> n"
  shows "\<exists>d. factorize_upto r n = Inr d \<and> dict_product d = n \<and> distinct (map fst d) \<and>
     (\<forall>(p, e) \<in> set d. 2 \<le> p \<and> 1 \<le> e) \<and>
     (0 \<le> r \<and> n < (r + 1) * (r + 1) \<longrightarrow> (\<forall>(p, e) \<in> set d. is_prime p))"
proof -
  from trial_division_result [of 2 n "[]" "r + 1"] n
  obtain a' fs' where t: "trial_division 2 (r + 1) n [] = Some (a', fs')" "1 \<le> a'"
    "dict_product fs' * a' = n" "\<forall>(p, e) \<in> set fs'. 2 \<le> p \<and> 1 \<le> e" "distinct (map fst fs')"
    "(\<forall>j. 2 \<le> j \<and> j < max 2 (r + 1) \<longrightarrow> \<not> j dvd a') \<and>
       (\<forall>(p, e) \<in> set fs'. is_prime p \<and> p < max 2 (r + 1))"
    by (auto simp: dict_product_def)
  define d where "d = (if 1 < a' then count_factor fs' a' else fs')"
  have res: "factorize_upto r n = Inr d"
    using t(1) by (simp add: factorize_upto_def d_def)
  have nonneg: "\<forall>(p, e) \<in> set fs'. 0 \<le> e" using t(4) by fastforce
  have prod: "dict_product d = n"
  proof (cases "1 < a'")
    case True
    then show ?thesis using dict_product_count_factor [OF nonneg, of a'] t(3)
      by (simp add: d_def)
  next
    case False
    with t(2) have "a' = 1" by simp
    with t(3) show ?thesis by (simp add: d_def)
  qed
  have dist: "distinct (map fst d)"
    using t(5) by (simp add: d_def count_factor_distinct)
  have exps: "\<forall>(p, e) \<in> set d. 2 \<le> p \<and> 1 \<le> e"
  proof (cases "1 < a'")
    case True
    then have "2 \<le> a'" by simp
    with t(4) have "\<forall>(p, e) \<in> set (count_factor fs' a'). 2 \<le> p \<and> 1 \<le> e"
      by (rule count_factor_entries)
    with True show ?thesis by (simp add: d_def)
  next
    case False
    with t(4) show ?thesis by (simp add: d_def)
  qed
  have primes: "\<forall>(p, e) \<in> set d. is_prime p" if r: "0 \<le> r" "n < (r + 1) * (r + 1)"
  proof (cases "1 < a'")
    case False
    with t(6) show ?thesis by (fastforce simp: d_def)
  next
    case True
    have "a' dvd n" using t(3) by (metis dvd_triv_right)
    with n have "a' \<le> n" by (simp add: zdvd_imp_le)
    with r have "a' < (r + 1) * (r + 1)" by simp
    with True r t(6) have "is_prime a'" by (intro residual_prime [of a' r]) simp_all
    moreover have "\<forall>(p, e) \<in> set fs'. is_prime p \<and> 1 \<le> e" using t(4,6) by fastforce
    ultimately have "\<forall>(p, e) \<in> set (count_factor fs' a'). is_prime p \<and> 1 \<le> e"
      using count_factor_entries [of fs' is_prime a'] by simp
    with True show ?thesis by (fastforce simp: d_def)
  qed
  from res prod dist exps primes show ?thesis by blast
qed

lemma overflow_bound_pos: "2 < overflow_bound"
  by (simp add: overflow_bound_def)

lemma int_pow_half_overflow: "overflow_bound \<le> \<bar>n\<bar> \<Longrightarrow> int_pow_half root n = Inl OverflowError"
  by (simp add: int_pow_half_def)

lemma int_pow_half_returns:
  "0 \<le> n \<Longrightarrow> n < overflow_bound \<Longrightarrow>
   int_pow_half root n = Inr (if n = 0 then 0 else if n = 1 then 1 else root n)"
  by (simp add: int_pow_half_def)

lemma factorize_overflow: "overflow_bound \<le> \<bar>n\<bar> \<Longrightarrow> factorize root n = Inl OverflowError"
  by (simp add: factorize_def int_pow_half_overflow)

lemma factorize_neg:
  "n < 0 \<Longrightarrow> - overflow_bound < n \<Longrightarrow> factorize root n = Inl TypeError"
  by (simp add: factorize_def int_pow_half_def)

lemma factorize_0: "factorize root 0 = Inr []"
proof -
  have "trial_division 2 1 0 [] = Some (0, [])"
    by (subst trial_division.simps) simp
  then show ?thesis
    using overflow_bound_pos by (simp add: factorize_def int_pow_half_def factorize_upto_def)
qed

lemma factorize_1: "factorize root 1 = Inr []"
proof -
  have "trial_division 2 2 1 [] = Some (1, [])"
    by (subst trial_division.simps) simp
  then show ?thesis
    using overflow_bound_pos by (simp add: factorize_def int_pow_half_def factorize_upto_def)
qed

text \<open>
  Below the overflow bound a positive integer is always factorized, whatever the root
  is: the product of the result is the integer. Its keys are primes as soon as the
  root is not too small, \<open>n < (root n + 1)\<^sup>2\<close>.
\<close>

lemma factorize_result:
  assumes n: "1 \<le> n" "n < overflow_bound"
  shows "\<exists>d. factorize root n = Inr d \<and> dict_product d = n \<and> distinct (map fst d) \<and>
     (\<forall>(p, e) \<in> set d. 2 \<le> p \<and> 1 \<le> e) \<and>
     (0 \<le> root n \<and> n < (root n + 1) * (root n + 1) \<longrightarrow> (\<forall>(p, e) \<in> set d. is_prime p))"
proof (cases "n = 1")
  case True
  then show ?thesis by (simp add: factorize_1 dict_product_def)
next
  case False
  with n have "factorize root n = factorize_upto (root n) n"
    by (simp add: factorize_def int_pow_half_def)
  with factorize_upto_result [OF n(1), of "root n"] show ?thesis by simp
qed

lemma factorize_keys:
  assumes n: "1 \<le> n" "n < overflow_bound" and d: "factorize root n = Inr d"
    and acc: "0 \<le> root n" "n < (root n + 1) * (root n + 1)"
  shows "set (map fst d) = {p. is_prime p \<and> p dvd n}"
proof -
  from factorize_result [OF n, of root] d acc
  have r: "dict_product d = n" "\<forall>(p, e) \<in> set d. is_prime p" "\<forall>(p, e) \<in> set d. 2 \<le> p \<and> 1 \<le> e"
    by auto
  show ?thesis
  proof (intro set_eqI iffI)
    fix p assume "p \<in> set (map fst d)"
    then obtain e where pe: "(p, e) \<in> set d" by auto
    with r(2,3) have "is_prime p" "1 \<le> e" by auto
    with pe r(1) show "p \<in> {p. is_prime p \<and> p dvd n}"
      using dict_product_key_dvd [of p e d] by simp
  next
    fix p assume "p \<in> {p. is_prime p \<and> p dvd n}"
    with r show "p \<in> set (map fst d)"
      using is_prime_dvd_dict_product [of p d] by fastforce
  qed
qed

lemma is_prime_iff:
  "is_prime p \<longleftrightarrow> 1 < p \<and> (\<forall>d. 0 < d \<and> d dvd p \<longrightarrow> d = 1 \<or> d = p)"
proof
  assume p: "is_prime p"
  then have "1 < p" by (simp add: is_prime_def)
  moreover have "d = 1 \<or> d = p" if "0 < d \<and> d dvd p" for d
    using that is_prime_dvd [OF p, of d] by (cases "d = 1") auto
  ultimately show "1 < p \<and> (\<forall>d. 0 < d \<and> d dvd p \<longrightarrow> d = 1 \<or> d = p)" by blast
next
  assume "1 < p \<and> (\<forall>d. 0 < d \<and> d dvd p \<longrightarrow> d = 1 \<or> d = p)"
  then have "1 < p" and h: "\<And>d. 0 < d \<Longrightarrow> d dvd p \<Longrightarrow> d = 1 \<or> d = p" by blast+
  have "\<not> d dvd p" if "d \<in> {2..<p}" for d
    using h [of d] that by auto
  with \<open>1 < p\<close> show "is_prime p" by (simp add: is_prime_def)
qed

text \<open>
  Every call of \<open>factorize\<close> ends, and it fails only with OverflowError or TypeError.
\<close>

lemma factorize_cases:
  "(overflow_bound \<le> \<bar>n\<bar> \<and> factorize root n = Inl OverflowError)
   \<or> (n < 0 \<and> factorize root n = Inl TypeError)
   \<or> (0 \<le> n \<and> n < overflow_bound \<and> (\<exists>d. factorize root n = Inr d))"
proof -
  consider "overflow_bound \<le> \<bar>n\<bar>" | "n < 0" "- overflow_bound < n" | "n = 0"
    | "1 \<le> n" "n < overflow_bound"
    using overflow_bound_pos by linarith
  then show ?thesis
  proof cases
    case 1 then show ?thesis by (simp add: factorize_overflow)
  next
    case 2 then show ?thesis by (simp add: factorize_neg)
  next
    case 3 then show ?thesis using overflow_bound_pos by (simp add: factorize_0)
  next
    case 4 then show ?thesis using factorize_result [of n root] by auto
  qed
qed

lemma factorize_returns: "factorize root n \<noteq> Inl Diverges"
  using factorize_cases [of n root] by auto

text \<open>
  A prime is factorized as itself whatever the root is: either the loop stops below
  it and it is the residual factor, or the loop reaches it and divides it out.
\<close>

lemma factorize_prime:
  assumes p: "is_prime p" "p < overflow_bound"
  shows "factorize root p = Inr [(p, 1)]"
proof -
  from p have p1: "1 \<le> p" by (simp add: is_prime_def)
  from factorize_result [OF p1 p(2), of root] obtain d where d: "factorize root p = Inr d"
    "dict_product d = p" "distinct (map fst d)" "\<forall>(q, e) \<in> set d. 2 \<le> q \<and> 1 \<le> e"
    by blast
  have key: "q = p" if "(q, e) \<in> set d" for q e
  proof -
    from that d(4) have "2 \<le> q" "1 \<le> e" by auto
    with that d(2) have "q dvd p" using dict_product_key_dvd [of q e d] by simp
    with p(1) \<open>2 \<le> q\<close> show ?thesis by (intro is_prime_dvd) simp_all
  qed
  have "d \<noteq> []" using d(2) p(1) by (auto simp: dict_product_def is_prime_def)
  then obtain x d' where xd: "d = x # d'" by (cases d) auto
  obtain q e where x: "x = (q, e)" by (cases x)
  have q: "q = p" using key [of q e] xd x by simp
  have "d' = []"
  proof (cases d')
    case Nil then show ?thesis .
  next
    case (Cons y ys)
    obtain q' e' where y: "y = (q', e')" by (cases y)
    have "q' = p" using key [of q' e'] xd Cons y by simp
    with q d(3) xd x Cons y show ?thesis by simp
  qed
  with xd x q d(2,4) have pe: "p ^ nat e = p" and e1: "1 \<le> e"
    by (simp_all add: dict_product_def)
  have "e = 1"
  proof (rule ccontr)
    assume "e \<noteq> 1"
    with e1 have "2 \<le> nat e" by simp
    then obtain m where m: "nat e = Suc (Suc m)"
      by (cases "nat e") (auto simp: Suc_le_eq elim: less_natE)
    from p(1) have p2: "2 \<le> p" by (simp add: is_prime_def)
    then have "1 \<le> p ^ m" by simp
    with p2 have "p * p * 1 \<le> p * p * p ^ m" by (intro mult_left_mono) simp_all
    moreover from p2 have "2 * p \<le> p * p" by (intro mult_right_mono) simp_all
    ultimately have "2 * p \<le> p * p * p ^ m" by simp
    with pe m p2 show False by simp
  qed
  with \<open>d' = []\<close> xd x q d(1) show ?thesis by simp
qed

subsection \<open>The round trip\<close>




subsection \<open>Prime keys, positive exponents\<close>

text \<open>
  C8, at \<open>n = 2 ^ 1024\<close>. The integer does not convert to a double, so
  \<^verbatim>\<open>a**0.5\<close> raises OverflowError before the first trial division: no dictionary is
  returned, where the factors are \<open>2 ^ 1024\<close> itself, the prime 2 with exponent 1024.
\<close>

theorem factorize_overflows:
  "factorize root (2 ^ 1024) = Inl OverflowError"
  by (simp add: factorize_overflow overflow_bound_def)

text \<open>
  The second way the float root breaks the prime keys. When \<^verbatim>\<open>int(n**0.5)\<close> comes out
  below the square root of \<open>n = p * p\<close> for a prime \<open>p\<close>, the loop ends before \<open>p\<close> and the
  residual factor, \<open>n\<close> itself, is recorded as a key with exponent 1: a key that is not
  a prime. (CPython 3.11 on glibc gives \<^verbatim>\<open>int((p*p)**0.5) == p - 1\<close> for the prime
  \<open>p = 9007199254740997\<close>.)
\<close>

lemma trial_division_no_divisor:
  "\<forall>j. i \<le> j \<and> j < stop \<longrightarrow> a mod j \<noteq> 0 \<Longrightarrow> trial_division i stop a fs = Some (a, fs)"
proof (induction i stop a fs rule: trial_division.induct)
  case (1 i stop a fs)
  show ?case
  proof (cases "i < stop")
    case False
    then show ?thesis by (subst trial_division.simps) simp
  next
    case True
    with "1.prems" have nd: "a mod i \<noteq> 0" by simp
    then have d: "divide_out i a fs = Some (a, fs)" by (subst divide_out.simps) simp
    have "\<forall>j. i + 1 \<le> j \<and> j < stop \<longrightarrow> a mod j \<noteq> 0" using "1.prems" by simp
    from "1.IH" [OF True d refl this] have "trial_division (i + 1) stop a fs = Some (a, fs)" .
    with True d show ?thesis by (subst trial_division.simps) simp
  qed
qed

lemma factorize_no_divisor:
  assumes "2 \<le> n" "n < overflow_bound" "\<forall>j. 2 \<le> j \<and> j < root n + 1 \<longrightarrow> n mod j \<noteq> 0"
  shows "factorize root n = Inr [(n, 1)]"
proof -
  from assms(3) have "trial_division 2 (root n + 1) n [] = Some (n, [])"
    by (rule trial_division_no_divisor)
  with assms(1,2) show ?thesis
    by (simp add: factorize_def int_pow_half_def factorize_upto_def count_factor_Nil)
qed

lemma factorize_square_of_prime:
  assumes p: "is_prime p" and b: "p * p < overflow_bound" and r: "root (p * p) < p"
  shows "factorize root (p * p) = Inr [(p * p, 1)] \<and> \<not> is_prime (p * p)"
proof -
  from p have p2: "2 \<le> p" by (simp add: is_prime_def)
  then have "2 * 2 \<le> p * p" by (intro mult_mono) simp_all
  then have big: "2 \<le> p * p" by simp
  have nd: "(p * p) mod j \<noteq> 0" if j: "2 \<le> j \<and> j < root (p * p) + 1" for j
  proof
    assume "(p * p) mod j = 0"
    then have d: "j dvd p * p" by (simp add: dvd_eq_mod_eq_0)
    have ndv: "\<not> j dvd p"
    proof
      assume "j dvd p"
      with p j have "j = p" by (intro is_prime_dvd) simp_all
      with j r show False by simp
    qed
    have "\<not> p dvd j"
    proof
      assume "p dvd j"
      moreover from j have "0 < j" by simp
      ultimately have "p \<le> j" by (rule zdvd_imp_le)
      with j r show False by simp
    qed
    with p have "coprime p j" by (rule is_prime_coprime)
    then have "coprime j p" by (simp add: coprime_commute)
    then have "j dvd p * p \<longleftrightarrow> j dvd p" by (rule coprime_dvd_mult_left_iff)
    with d ndv show False by simp
  qed
  then have "\<forall>j. 2 \<le> j \<and> j < root (p * p) + 1 \<longrightarrow> (p * p) mod j \<noteq> 0" by simp
  with big b have "factorize root (p * p) = Inr [(p * p, 1)]" by (rule factorize_no_divisor)
  moreover have "\<not> is_prime (p * p)"
  proof
    assume "is_prime (p * p)"
    moreover have "p dvd p * p" by simp
    ultimately have "p = p * p" using p2 by (intro is_prime_dvd) simp_all
    with p2 show False by simp
  qed
  ultimately show ?thesis ..
qed

text \<open>
  Where the root is large enough, \<open>n < (root n + 1)\<^sup>2\<close>, the keys are the primes that
  divide \<open>n\<close> (\<open>factorize_result\<close>, \<open>factorize_keys\<close>); the exact integer square root is
  large enough.
\<close>

lemma factorize_exact_root:
  assumes "2 \<le> n" "n < overflow_bound"
  shows "\<exists>d. factorize exact_root n = Inr d \<and> (\<forall>(p, e) \<in> set d. is_prime p \<and> 1 \<le> e)"
  using factorize_result [of n exact_root] exact_root_spec [of n] assms by fastforce

section \<open>Properties of the engine\<close>

subsection \<open>The single step\<close>

declare run_loop.simps [simp del]

lemma scan_none:
  "\<forall>(n, d) \<in> set fs. d \<noteq> 0 \<and> (n * cur) mod d \<noteq> 0 \<Longrightarrow> scan fs i cur = Inr None"
  by (induction fs arbitrary: i) auto

lemma scan_first:
  "k < length fs \<Longrightarrow>
   \<forall>j < k. snd (fs ! j) \<noteq> 0 \<and> (fst (fs ! j) * cur) mod snd (fs ! j) \<noteq> 0 \<Longrightarrow>
   snd (fs ! k) \<noteq> 0 \<Longrightarrow> (fst (fs ! k) * cur) mod snd (fs ! k) = 0 \<Longrightarrow>
   scan fs i cur = Inr (Some ((fst (fs ! k) * cur) div snd (fs ! k), i + k))"
proof (induction fs arbitrary: i k)
  case Nil
  then show ?case by simp
next
  case (Cons x fs)
  obtain n d where x: "x = (n, d)" by (cases x)
  show ?case
  proof (cases k)
    case 0
    with Cons.prems x show ?thesis by simp
  next
    case (Suc k')
    from Cons.prems(2) Suc have h0: "d \<noteq> 0 \<and> (n * cur) mod d \<noteq> 0"
      using x by (auto dest: spec [of _ 0])
    have "\<forall>j < k'. snd (fs ! j) \<noteq> 0 \<and> (fst (fs ! j) * cur) mod snd (fs ! j) \<noteq> 0"
    proof (intro allI impI)
      fix j assume "j < k'"
      then have "Suc j < k" using Suc by simp
      with Cons.prems(2) show "snd (fs ! j) \<noteq> 0 \<and> (fst (fs ! j) * cur) mod snd (fs ! j) \<noteq> 0"
        by (auto dest: spec [of _ "Suc j"])
    qed
    with Cons.IH [of k' "Suc i"] Cons.prems Suc
    have "scan fs (Suc i) cur = Inr (Some ((fst (fs ! k') * cur) div snd (fs ! k'), Suc i + k'))"
      by simp
    with h0 x Suc show ?thesis by simp
  qed
qed

lemma scan_zero_denominator:
  "k < length fs \<Longrightarrow>
   \<forall>j < k. snd (fs ! j) \<noteq> 0 \<and> (fst (fs ! j) * cur) mod snd (fs ! j) \<noteq> 0 \<Longrightarrow>
   snd (fs ! k) = 0 \<Longrightarrow> scan fs i cur = Inl ZeroDivisionError"
proof (induction fs arbitrary: i k)
  case Nil
  then show ?case by simp
next
  case (Cons x fs)
  obtain n d where x: "x = (n, d)" by (cases x)
  show ?case
  proof (cases k)
    case 0
    with Cons.prems x show ?thesis by simp
  next
    case (Suc k')
    from Cons.prems(2) Suc have h0: "d \<noteq> 0 \<and> (n * cur) mod d \<noteq> 0"
      using x by (auto dest: spec [of _ 0])
    have "\<forall>j < k'. snd (fs ! j) \<noteq> 0 \<and> (fst (fs ! j) * cur) mod snd (fs ! j) \<noteq> 0"
    proof (intro allI impI)
      fix j assume "j < k'"
      then have "Suc j < k" using Suc by simp
      with Cons.prems(2) show "snd (fs ! j) \<noteq> 0 \<and> (fst (fs ! j) * cur) mod snd (fs ! j) \<noteq> 0"
        by (auto dest: spec [of _ "Suc j"])
    qed
    with Cons.IH [of k' "Suc i"] Cons.prems Suc
    have "scan fs (Suc i) cur = Inl ZeroDivisionError" by simp
    with h0 x Suc show ?thesis by simp
  qed
qed

lemma scan_total:
  "\<forall>(n, d) \<in> set fs. d \<noteq> 0 \<Longrightarrow> \<exists>r. scan fs i cur = Inr r"
  by (induction fs arbitrary: i) auto

lemma run_step_cases:
  assumes "run_step s = Inr s'"
  shows "f s' = f s \<and> registers s' = registers s \<and>
     ((\<exists>x. N s' = N s @ [x] \<and> (\<exists>i. transitions s' = transitions s @ [i]))
      \<or> (N s' = N s @ [0] \<and> transitions s' = transitions s))"
proof (cases "f s = []")
  case True
  with assms show ?thesis by (auto simp: run_step_def)
next
  case False
  note ne = this
  show ?thesis
  proof (cases "N s = []")
    case True
    with ne assms show ?thesis by (simp add: run_step_def)
  next
    case False
    show ?thesis
    proof (cases "scan (f s) 0 (last (N s))")
      case (Inl e)
      with ne False assms show ?thesis by (simp add: run_step_def)
    next
      case (Inr r)
      show ?thesis
      proof (cases r)
        case None
        with Inr ne False assms show ?thesis by (auto simp: run_step_def)
      next
        case (Some p)
        obtain x i where "p = (x, i)" by (cases p)
        with Some Inr ne False assms show ?thesis by (auto simp: run_step_def)
      qed
    qed
  qed
qed

lemma run_step_total:
  assumes "N s \<noteq> []" "\<forall>(n, d) \<in> set (f s). d \<noteq> 0"
  shows "\<exists>s'. run_step s = Inr s'"
  using assms scan_total [of "f s" 0 "last (N s)"]
  by (auto simp: run_step_def split: sum.splits option.splits)


lemma run_step_hit:
  "N s \<noteq> [] \<Longrightarrow> scan (f s) 0 (last (N s)) = Inr (Some (x, i)) \<Longrightarrow>
   run_step s = Inr (s\<lparr>N := N s @ [x], transitions := transitions s @ [i]\<rparr>)"
  by (cases "f s") (simp_all add: run_step_def)

lemma run_step_miss:
  "N s \<noteq> [] \<Longrightarrow> scan (f s) 0 (last (N s)) = Inr None \<Longrightarrow>
   run_step s = Inr (s\<lparr>N := N s @ [0]\<rparr>)"
  by (simp add: run_step_def)

lemma denominators_nth:
  "\<forall>(n, d) \<in> set fs. P d \<Longrightarrow> k < length fs \<Longrightarrow> P (snd (fs ! k))"
proof -
  assume a: "\<forall>(n, d) \<in> set fs. P d" and k: "k < length fs"
  obtain n d where nd: "fs ! k = (n, d)" by (cases "fs ! k")
  with k have "(n, d) \<in> set fs" by (metis nth_mem)
  with a have "P d" by blast
  with nd show ?thesis by simp
qed

text \<open>
  C1. For a program whose denominators are all positive and a trace that is not
  empty, a single step returns normally; the program and the registers are unchanged
  and the trace is one entry longer. If fraction \<open>k\<close> is the first one, in program
  order, with \<open>(numerator * current) mod denominator = 0\<close>, the new entry is
  \<open>(numerator * current) div denominator\<close> and \<open>k\<close> is appended to the transitions; if
  no fraction divides evenly, the new entry is 0 and the transitions are unchanged.
\<close>

theorem run_step_first_match:
  assumes "N s \<noteq> []" and "\<forall>(n, d) \<in> set (f s). 0 < d"
  shows "\<exists>s'. run_step s = Inr s' \<and> f s' = f s \<and> registers s' = registers s
     \<and> length (N s') = length (N s) + 1
     \<and> (\<forall>k < length (f s).
          (fst (f s ! k) * last (N s)) mod snd (f s ! k) = 0
          \<and> (\<forall>j < k. (fst (f s ! j) * last (N s)) mod snd (f s ! j) \<noteq> 0)
          \<longrightarrow> N s' = N s @ [(fst (f s ! k) * last (N s)) div snd (f s ! k)]
              \<and> transitions s' = transitions s @ [k])
     \<and> ((\<forall>k < length (f s). (fst (f s ! k) * last (N s)) mod snd (f s ! k) \<noteq> 0)
          \<longrightarrow> N s' = N s @ [0] \<and> transitions s' = transitions s)"
proof -
  define cur where "cur = last (N s)"
  define fs where "fs = f s"
  have nz: "snd (fs ! k) \<noteq> 0" if "k < length fs" for k
    using denominators_nth [of fs "\<lambda>d. 0 < d" k] assms(2) that by (simp add: fs_def)
  have dn: "\<forall>(n, d) \<in> set fs. d \<noteq> 0" using assms(2) by (fastforce simp: fs_def)
  from run_step_total [OF assms(1)] dn obtain s' where s': "run_step s = Inr s'"
    by (auto simp: fs_def)
  from run_step_cases [OF s'] have frame: "f s' = f s" "registers s' = registers s"
    and len: "length (N s') = length (N s) + 1" by auto
  have first: "N s' = N s @ [(fst (fs ! k) * cur) div snd (fs ! k)]
              \<and> transitions s' = transitions s @ [k]"
    if k: "k < length fs" and hit: "(fst (fs ! k) * cur) mod snd (fs ! k) = 0"
      and miss: "\<forall>j < k. (fst (fs ! j) * cur) mod snd (fs ! j) \<noteq> 0" for k
  proof -
    have "\<forall>j < k. snd (fs ! j) \<noteq> 0 \<and> (fst (fs ! j) * cur) mod snd (fs ! j) \<noteq> 0"
      using miss nz k by simp
    from scan_first [OF k this nz [OF k] hit, of 0]
    have "scan (f s) 0 (last (N s)) = Inr (Some ((fst (fs ! k) * cur) div snd (fs ! k), k))"
      by (simp add: fs_def cur_def)
    from run_step_hit [OF assms(1) this] s' show ?thesis by simp
  qed
  have none: "N s' = N s @ [0] \<and> transitions s' = transitions s"
    if miss: "\<forall>k < length fs. (fst (fs ! k) * cur) mod snd (fs ! k) \<noteq> 0"
  proof -
    have "\<forall>(n, d) \<in> set fs. d \<noteq> 0 \<and> (n * cur) mod d \<noteq> 0"
    proof (clarify)
      fix n d assume "(n, d) \<in> set fs"
      then obtain k where k: "k < length fs" "fs ! k = (n, d)" by (metis in_set_conv_nth)
      from miss k(1) have "(fst (fs ! k) * cur) mod snd (fs ! k) \<noteq> 0" by simp
      with k nz [of k] show "d \<noteq> 0 \<and> (n * cur) mod d \<noteq> 0" by simp
    qed
    then have "scan (f s) 0 (last (N s)) = Inr None"
      unfolding fs_def cur_def by (rule scan_none)
    from run_step_miss [OF assms(1) this] s' show ?thesis by simp
  qed
  show ?thesis
  proof (intro exI conjI allI impI)
    show "run_step s = Inr s'" by (rule s')
    show "f s' = f s" "registers s' = registers s" by (rule frame)+
    show "length (N s') = length (N s) + 1" by (rule len)
  next
    fix k
    assume "k < length (f s)"
      and "(fst (f s ! k) * last (N s)) mod snd (f s ! k) = 0
          \<and> (\<forall>j < k. (fst (f s ! j) * last (N s)) mod snd (f s ! j) \<noteq> 0)"
    then show "N s' = N s @ [(fst (f s ! k) * last (N s)) div snd (f s ! k)]"
      and "transitions s' = transitions s @ [k]"
      using first [of k] by (simp_all add: fs_def cur_def)
  next
    assume "\<forall>k < length (f s). (fst (f s ! k) * last (N s)) mod snd (f s ! k) \<noteq> 0"
    then show "N s' = N s @ [0]" and "transitions s' = transitions s"
      using none by (simp_all add: fs_def cur_def)
  qed
qed


theorem run_step_first_match_witness:
  "N \<lparr>f = [(5, 3), (1, 2)], N = [8], transitions = [], registers = [(5, 0), (3, 0), (2, 0)]\<rparr> \<noteq> []
   \<and> run_step \<lparr>f = [(5, 3), (1, 2)], N = [8], transitions = [], registers = [(5, 0), (3, 0), (2, 0)]\<rparr>
       = Inr \<lparr>f = [(5, 3), (1, 2)], N = [8, 4], transitions = [1],
              registers = [(5, 0), (3, 0), (2, 0)]\<rparr>
   \<and> run_step \<lparr>f = [(5, 3), (1, 2)], N = [8, 4, 2, 1], transitions = [1, 1, 1],
              registers = [(5, 0), (3, 0), (2, 0)]\<rparr>
       = Inr \<lparr>f = [(5, 3), (1, 2)], N = [8, 4, 2, 1, 0], transitions = [1, 1, 1],
              registers = [(5, 0), (3, 0), (2, 0)]\<rparr>"
proof -
  let ?s = "\<lparr>f = [(5, 3), (1, 2)], N = [8], transitions = [],
              registers = [(5, 0), (3, 0), (2, 0)]\<rparr>"
  have h1: "N ?s \<noteq> []" by simp
  have h2: "\<forall>(n, d) \<in> set (f ?s). 0 < d" by simp
  from run_step_first_match [OF h1 h2] obtain s'
    where s': "run_step ?s = Inr s'" and len: "length (N s') = length (N ?s) + 1"
    by (elim exE conjE)
  have e: "run_step ?s = Inr \<lparr>f = [(5, 3), (1, 2)], N = [8, 4], transitions = [1],
              registers = [(5, 0), (3, 0), (2, 0)]\<rparr>"
    by (simp add: run_step_def)
  have e2: "run_step \<lparr>f = [(5, 3), (1, 2)], N = [8, 4, 2, 1], transitions = [1, 1, 1],
              registers = [(5, 0), (3, 0), (2, 0)]\<rparr>
       = Inr \<lparr>f = [(5, 3), (1, 2)], N = [8, 4, 2, 1, 0], transitions = [1, 1, 1],
              registers = [(5, 0), (3, 0), (2, 0)]\<rparr>"
    by (simp add: run_step_def)
  from s' len e e2 show ?thesis by simp
qed

subsection \<open>Running to a halt\<close>

lemma run_loop_halted:
  "N s \<noteq> [] \<Longrightarrow> last (N s) = 0 \<Longrightarrow> run_loop max_steps s = Inr s"
  by (subst run_loop.simps) simp

lemma run_loop_step:
  "N s \<noteq> [] \<Longrightarrow> last (N s) \<noteq> 0 \<Longrightarrow> run_step s = Inr s1 \<Longrightarrow>
   run_loop max_steps s = run_loop max_steps (cap max_steps s1)"
  by (subst run_loop.simps) simp

lemma run_loop_error:
  "N s \<noteq> [] \<Longrightarrow> last (N s) \<noteq> 0 \<Longrightarrow> run_step s = Inl e \<Longrightarrow>
   run_loop max_steps s = Inl e"
  by (subst run_loop.simps) simp

lemma run_step_extends:
  assumes "run_step s = Inr s1"
  shows "f s1 = f s" "registers s1 = registers s" "N s1 \<noteq> []"
    "length (N s1) = Suc (length (N s))" "prefix (N s) (N s1)"
    "prefix (transitions s) (transitions s1)"
    "length (transitions s1) \<le> Suc (length (transitions s))"
  using run_step_cases [OF assms] by auto

lemma cap_simps:
  "f (cap max_steps s) = f s" "registers (cap max_steps s) = registers s"
  "transitions (cap max_steps s) = transitions s"
  "N (cap max_steps s) =
     (if int (length (N s)) + 1 > max_steps then N s @ [0] else N s)"
  by (simp_all add: cap_def)

lemma run_loop_result:
  assumes "N s \<noteq> []" "\<forall>(n, d) \<in> set (f s). d \<noteq> 0"
  shows "\<exists>s'. run_loop max_steps s = Inr s' \<and> f s' = f s \<and> registers s' = registers s
      \<and> N s' \<noteq> [] \<and> last (N s') = 0
      \<and> prefix (N s) (N s') \<and> prefix (transitions s) (transitions s')
      \<and> (last (N s) = 0 \<longrightarrow> s' = s)
      \<and> int (length (N s')) \<le> max (int (length (N s)) + 2) (max_steps + 1)
      \<and> (\<exists>k. steps k s = Inr s' \<or> (\<exists>s2. steps k s = Inr s2 \<and> s' = s2\<lparr>N := N s2 @ [0]\<rparr>))"
  using assms
proof (induction max_steps s rule: run_loop.induct)
  case (1 max_steps s)
  show ?case
  proof (cases "last (N s) = 0")
    case True
    with "1.prems" have "run_loop max_steps s = Inr s" by (simp add: run_loop_halted)
    moreover have "\<exists>k. steps k s = Inr s \<or> (\<exists>s2. steps k s = Inr s2 \<and> s = s2\<lparr>N := N s2 @ [0]\<rparr>)"
      by (intro exI [of _ 0]) simp
    ultimately show ?thesis using True "1.prems"(1) by (intro exI [of _ s]) simp
  next
    case False
    from run_step_total [OF "1.prems"] obtain s1 where s1: "run_step s = Inr s1" ..
    note ext = run_step_extends [OF s1]
    have loop: "run_loop max_steps s = run_loop max_steps (cap max_steps s1)"
      using "1.prems"(1) False s1 by (rule run_loop_step)
    show ?thesis
    proof (cases "int (length (N s1)) + 1 > max_steps")
      case True
      define s' where "s' = s1\<lparr>N := N s1 @ [0]\<rparr>"
      have c: "cap max_steps s1 = s'" using True by (simp add: cap_def s'_def)
      have "run_loop max_steps s' = Inr s'" by (rule run_loop_halted) (simp_all add: s'_def)
      with loop c have r: "run_loop max_steps s = Inr s'" by simp
      have "steps 1 s = Inr s1" using s1 by simp
      then have k: "\<exists>k. steps k s = Inr s' \<or> (\<exists>s2. steps k s = Inr s2 \<and> s' = s2\<lparr>N := N s2 @ [0]\<rparr>)"
        unfolding s'_def by blast
      have "prefix (N s) (N s')" using ext(5) by (auto simp: s'_def prefix_def)
      moreover have "int (length (N s')) \<le> max (int (length (N s)) + 2) (max_steps + 1)"
        using ext(4) by (simp add: s'_def)
      ultimately show ?thesis using r k ext False
        by (intro exI [of _ s']) (simp add: s'_def)
    next
      case nocap: False
      then have c: "cap max_steps s1 = s1" by (simp add: cap_def)
      have p1: "N (cap max_steps s1) \<noteq> []" using ext(3) c by simp
      have p2: "\<forall>(n, d) \<in> set (f (cap max_steps s1)). d \<noteq> 0"
        using "1.prems"(2) ext(1) c by simp
      from "1.IH" [OF "1.prems"(1) False s1 p1 p2] c
      obtain s' where r: "run_loop max_steps s1 = Inr s'" "f s' = f s1"
        "registers s' = registers s1" "N s' \<noteq> []" "last (N s') = 0"
        "prefix (N s1) (N s')" "prefix (transitions s1) (transitions s')"
        "int (length (N s')) \<le> max (int (length (N s1)) + 2) (max_steps + 1)"
        "\<exists>k. steps k s1 = Inr s' \<or> (\<exists>s2. steps k s1 = Inr s2 \<and> s' = s2\<lparr>N := N s2 @ [0]\<rparr>)"
        by auto
      from r(9) obtain k where
        "steps k s1 = Inr s' \<or> (\<exists>s2. steps k s1 = Inr s2 \<and> s' = s2\<lparr>N := N s2 @ [0]\<rparr>)" ..
      then have "steps (Suc k) s = Inr s'
          \<or> (\<exists>s2. steps (Suc k) s = Inr s2 \<and> s' = s2\<lparr>N := N s2 @ [0]\<rparr>)"
        using s1 by simp
      then have k: "\<exists>k. steps k s = Inr s' \<or> (\<exists>s2. steps k s = Inr s2 \<and> s' = s2\<lparr>N := N s2 @ [0]\<rparr>)" ..
      have pN: "prefix (N s) (N s')" using ext(5) r(6) by (rule prefix_order.trans)
      have pT: "prefix (transitions s) (transitions s')"
        using ext(6) r(7) by (rule prefix_order.trans)
      have len: "int (length (N s')) \<le> max (int (length (N s)) + 2) (max_steps + 1)"
        using r(8) ext(4) nocap by simp
      from loop c r(1) have "run_loop max_steps s = Inr s'" by simp
      with r(2-5) ext(1,2) pN pT len k False show ?thesis
        by (intro exI [of _ s']) simp
    qed
  qed
qed


lemma run_loop_extends:
  "run_loop max_steps s = Inr s' \<Longrightarrow>
   f s' = f s \<and> prefix (N s) (N s') \<and> prefix (transitions s) (transitions s')"
proof (induction max_steps s rule: run_loop.induct)
  case (1 max_steps s)
  from "1.prems" have ne: "N s \<noteq> []"
    by (subst (asm) run_loop.simps) (simp split: if_splits)
  show ?case
  proof (cases "last (N s) = 0")
    case True
    with ne "1.prems" show ?thesis by (simp add: run_loop_halted)
  next
    case False
    show ?thesis
    proof (cases "run_step s")
      case (Inl e)
      with ne False "1.prems" show ?thesis by (simp add: run_loop_error)
    next
      case (Inr s1)
      note ext = run_step_extends [OF Inr]
      from ne False Inr "1.prems" have "run_loop max_steps (cap max_steps s1) = Inr s'"
        by (simp add: run_loop_step)
      from "1.IH" [OF ne False Inr this]
      have "f s' = f s1" "prefix (N (cap max_steps s1)) (N s')"
        "prefix (transitions s1) (transitions s')"
        by (simp_all add: cap_simps)
      moreover have "prefix (N s1) (N (cap max_steps s1))"
        by (simp add: cap_simps)
      ultimately show ?thesis using ext by (auto intro: prefix_order.trans)
    qed
  qed
qed


lemma steps_Suc_first:
  "run_step s = Inr s1 \<Longrightarrow> steps (Suc k) s = steps k s1"
  by simp

lemma run_loop_first_stop:
  assumes "N s \<noteq> []" "\<forall>(n, d) \<in> set (f s). d \<noteq> 0" "last (N s) \<noteq> 0"
  shows "\<exists>k sk. steps (Suc k) s = Inr sk \<and> stops max_steps sk
      \<and> run_loop max_steps s = Inr (cap max_steps sk)
      \<and> (\<forall>i<k. \<exists>si. steps (Suc i) s = Inr si \<and> \<not> stops max_steps si)"
  using assms
proof (induction max_steps s rule: run_loop.induct)
  case (1 max_steps s)
  note ne = "1.prems"(1) and nz = "1.prems"(3)
  from run_step_total [OF "1.prems"(1,2)] obtain s1 where s1: "run_step s = Inr s1" ..
  note ext = run_step_extends [OF s1]
  have loop: "run_loop max_steps s = run_loop max_steps (cap max_steps s1)"
    using ne nz s1 by (rule run_loop_step)
  have st1: "steps (Suc 0) s = Inr s1" using s1 by simp
  show ?case
  proof (cases "stops max_steps s1")
    case True
    have "N (cap max_steps s1) \<noteq> []" using ext(3) by (simp add: cap_simps)
    moreover have "last (N (cap max_steps s1)) = 0"
      using True ext(3) by (auto simp: cap_simps stops_def)
    ultimately have "run_loop max_steps (cap max_steps s1) = Inr (cap max_steps s1)"
      by (rule run_loop_halted)
    with loop have "run_loop max_steps s = Inr (cap max_steps s1)" by simp
    with st1 True have "steps (Suc 0) s = Inr s1 \<and> stops max_steps s1
      \<and> run_loop max_steps s = Inr (cap max_steps s1)
      \<and> (\<forall>i<0. \<exists>si. steps (Suc i) s = Inr si \<and> \<not> stops max_steps si)"
      by simp
    then show ?thesis by blast
  next
    case False
    then have c: "cap max_steps s1 = s1" and nz1: "last (N s1) \<noteq> 0"
      by (simp_all add: cap_def stops_def)
    have p1: "N (cap max_steps s1) \<noteq> []" using ext(3) c by simp
    have p2: "\<forall>(n, d) \<in> set (f (cap max_steps s1)). d \<noteq> 0"
      using "1.prems"(2) ext(1) c by simp
    have p3: "last (N (cap max_steps s1)) \<noteq> 0" using nz1 c by simp
    from "1.IH" [OF ne nz s1 p1 p2 p3] c
    obtain k sk where k: "steps (Suc k) s1 = Inr sk" "stops max_steps sk"
      "run_loop max_steps s1 = Inr (cap max_steps sk)"
      "\<forall>i<k. \<exists>si. steps (Suc i) s1 = Inr si \<and> \<not> stops max_steps si"
      by auto
    have a: "steps (Suc (Suc k)) s = Inr sk" using s1 k(1) by simp
    have b: "run_loop max_steps s = Inr (cap max_steps sk)" using loop c k(3) by simp
    have d: "\<exists>si. steps (Suc i) s = Inr si \<and> \<not> stops max_steps si" if "i < Suc k" for i
    proof (cases i)
      case 0
      with st1 False show ?thesis by simp
    next
      case (Suc j)
      with that have "j < k" by simp
      with k(4) obtain si where "steps (Suc j) s1 = Inr si" "\<not> stops max_steps si" by blast
      moreover have "steps (Suc (Suc j)) s = steps (Suc j) s1" using s1 by (rule steps_Suc_first)
      ultimately show ?thesis using Suc by simp
    qed
    from a k(2) b d have "steps (Suc (Suc k)) s = Inr sk \<and> stops max_steps sk
      \<and> run_loop max_steps s = Inr (cap max_steps sk)
      \<and> (\<forall>i<Suc k. \<exists>si. steps (Suc i) s = Inr si \<and> \<not> stops max_steps si)"
      by simp
    then show ?thesis by blast
  qed
qed

text \<open>
  C3. For a program whose denominators are all positive, an engine with a trace and
  any step budget (a positive one in particular), \<^verbatim>\<open>run\<close> returns: the loop is a
  total function and no step fails. On return the trace ends in 0, the program is the
  one it started with, the trace it started from (after the optional reset) is a
  prefix of the final one, and the final trace has at most \<open>max_steps + 1\<close> entries,
  or two more than it started with. The result is the one of stepping until 0 or the
  budget: if the starting trace ends in 0, nothing is done; otherwise there is a
  first step, number \<open>k + 1\<close>, after which the last entry is 0 or the trace length
  plus one exceeds the budget; every earlier step succeeded and left a nonzero last
  entry with the trace within the budget; and the result is the state after step
  \<open>k + 1\<close>, with one forced 0 appended exactly when its trace length plus one exceeds
  the budget.
\<close>

theorem run_terminates:
  assumes "N s \<noteq> []" and "\<forall>(n, d) \<in> set (f s). 0 < d"
  shows "\<exists>s'. run N_0 max_steps s = Inr s' \<and> f s' = f s \<and> N s' \<noteq> [] \<and> last (N s') = 0
     \<and> prefix (N (reset_trace N_0 s)) (N s')
     \<and> int (length (N s')) \<le> max (int (length (N (reset_trace N_0 s))) + 2) (max_steps + 1)
     \<and> (if last (N (reset_trace N_0 s)) = 0 then s' = reset_trace N_0 s
        else \<exists>k sk. steps (Suc k) (reset_trace N_0 s) = Inr sk \<and> stops max_steps sk
               \<and> s' = cap max_steps sk
               \<and> (\<forall>i<k. \<exists>si. steps (Suc i) (reset_trace N_0 s) = Inr si
                        \<and> \<not> stops max_steps si))"
proof -
  define s0 where "s0 = reset_trace N_0 s"
  have fs: "f s0 = f s" by (simp add: s0_def reset_trace_def split: option.splits)
  have ne: "N s0 \<noteq> []" using assms(1) by (simp add: s0_def reset_trace_def split: option.splits)
  have nz: "\<forall>(n, d) \<in> set (f s0). d \<noteq> 0" using assms(2) fs by fastforce
  from run_loop_result [OF ne nz, of max_steps] obtain s'
    where r: "run_loop max_steps s0 = Inr s'" "f s' = f s0" "N s' \<noteq> []" "last (N s') = 0"
      "prefix (N s0) (N s')"
      "int (length (N s')) \<le> max (int (length (N s0)) + 2) (max_steps + 1)"
      "last (N s0) = 0 \<longrightarrow> s' = s0"
    by blast
  have "if last (N s0) = 0 then s' = s0
        else \<exists>k sk. steps (Suc k) s0 = Inr sk \<and> stops max_steps sk \<and> s' = cap max_steps sk
               \<and> (\<forall>i<k. \<exists>si. steps (Suc i) s0 = Inr si \<and> \<not> stops max_steps si)"
  proof (cases "last (N s0) = 0")
    case True
    with r(7) show ?thesis by simp
  next
    case False
    from run_loop_first_stop [OF ne nz False, of max_steps] r(1) False show ?thesis by auto
  qed
  with r(1-6) fs show ?thesis unfolding run_def s0_def [symmetric] by simp
qed

theorem run_terminates_witness:
  "N \<lparr>f = [(1, 2)], N = [8], transitions = [], registers = [(2, 0)]\<rparr> \<noteq> []
   \<and> run None 100 \<lparr>f = [(1, 2)], N = [8], transitions = [], registers = [(2, 0)]\<rparr>
       = Inr \<lparr>f = [(1, 2)], N = [8, 4, 2, 1, 0], transitions = [0, 0, 0], registers = [(2, 0)]\<rparr>
   \<and> run None 3 \<lparr>f = [(1, 1)], N = [5], transitions = [], registers = []\<rparr>
       = Inr \<lparr>f = [(1, 1)], N = [5, 5, 5, 0], transitions = [0, 0], registers = []\<rparr>"
proof -
  let ?s = "\<lparr>f = [(1, 2)], N = [8], transitions = [], registers = [(2, 0)]\<rparr>"
  have h1: "N ?s \<noteq> []" by simp
  have h2: "\<forall>(n, d) \<in> set (f ?s). 0 < d" by simp
  from run_terminates [OF h1 h2, of None 100] obtain s'
    where s': "run None 100 ?s = Inr s'" and z: "last (N s') = 0"
    by (elim exE conjE)
  have e1: "run None 100 ?s
       = Inr \<lparr>f = [(1, 2)], N = [8, 4, 2, 1, 0], transitions = [0, 0, 0], registers = [(2, 0)]\<rparr>"
    by code_simp
  have e2: "run None 3 \<lparr>f = [(1, 1)], N = [5], transitions = [], registers = []\<rparr>
       = Inr \<lparr>f = [(1, 1)], N = [5, 5, 5, 0], transitions = [0, 0], registers = []\<rparr>"
    by code_simp
  from s' z e1 e2 show ?thesis by simp
qed

text \<open>
  C4. Once the trace ends in 0, a call of \<^verbatim>\<open>run\<close> without a reset (\<^verbatim>\<open>N_0\<close> left
  at \<^verbatim>\<open>None\<close>, or given as 0) returns the engine as it is: nothing is appended.
\<close>

theorem halted_is_absorbing:
  assumes "N s \<noteq> []" and "last (N s) = 0"
  shows "run None max_steps s = Inr s \<and> run (Some 0) max_steps s = Inr s"
  using assms by (simp add: run_def reset_trace_def run_loop_halted)

theorem halted_is_absorbing_witness:
  "run None 100 \<lparr>f = [(1, 2)], N = [8, 4, 2, 1, 0], transitions = [0, 0, 0], registers = [(2, 0)]\<rparr>
     = Inr \<lparr>f = [(1, 2)], N = [8, 4, 2, 1, 0], transitions = [0, 0, 0], registers = [(2, 0)]\<rparr>
   \<and> last [8, 4, 2, 1, 0 :: int] = 0"
  using halted_is_absorbing [of "\<lparr>f = [(1, 2)], N = [8, 4, 2, 1, 0], transitions = [0, 0, 0],
    registers = [(2, 0)]\<rparr>" 100]
  by simp

text \<open>
  C10. With a nonzero \<^verbatim>\<open>N_0\<close>, \<^verbatim>\<open>run\<close> first replaces the trace by \<open>[N_0]\<close> and
  leaves the transitions as they are, so that an engine with recorded transitions
  then holds more transitions than its trace has steps; when the call returns, the
  trace starts at \<open>N_0\<close> and the old transitions are still the head of the list.
  With \<^verbatim>\<open>N_0\<close> equal to 0 or \<^verbatim>\<open>None\<close> nothing is reset: the call is the loop on the
  engine as it stands.
\<close>

theorem run_reset_keeps_transitions:
  "(x \<noteq> 0 \<longrightarrow>
      reset_trace (Some x) s = s\<lparr>N := [x]\<rparr>
      \<and> transitions (reset_trace (Some x) s) = transitions s
      \<and> (transitions s \<noteq> [] \<longrightarrow>
           length (N (reset_trace (Some x) s)) - 1 < length (transitions (reset_trace (Some x) s)))
      \<and> (\<forall>s'. run (Some x) max_steps s = Inr s' \<longrightarrow>
           hd (N s') = x \<and> prefix (transitions s) (transitions s')))
   \<and> reset_trace (Some 0) s = s \<and> reset_trace None s = s
   \<and> run (Some 0) max_steps s = run_loop max_steps s
   \<and> run None max_steps s = run_loop max_steps s"
proof -
  have "hd (N s') = x \<and> prefix (transitions s) (transitions s')"
    if "x \<noteq> 0" "run (Some x) max_steps s = Inr s'" for s'
  proof -
    from that have "run_loop max_steps (s\<lparr>N := [x]\<rparr>) = Inr s'"
      by (simp add: run_def reset_trace_def)
    from run_loop_extends [OF this] show ?thesis by (auto simp: prefix_def)
  qed
  then show ?thesis by (auto simp: reset_trace_def run_def)
qed

theorem run_reset_keeps_transitions_witness:
  "run (Some 3) 100 \<lparr>f = [(5, 3), (1, 2)], N = [8, 4, 2, 1, 0], transitions = [1, 1, 1],
        registers = [(5, 0), (3, 0), (2, 0)]\<rparr>
     = Inr \<lparr>f = [(5, 3), (1, 2)], N = [3, 5, 0], transitions = [1, 1, 1, 0],
        registers = [(5, 0), (3, 0), (2, 0)]\<rparr>
   \<and> reset_trace (Some 3) \<lparr>f = [(5, 3), (1, 2)], N = [8, 4, 2, 1, 0], transitions = [1, 1, 1],
        registers = [(5, 0), (3, 0), (2, 0)]\<rparr>
     = \<lparr>f = [(5, 3), (1, 2)], N = [3], transitions = [1, 1, 1],
        registers = [(5, 0), (3, 0), (2, 0)]\<rparr>"
proof -
  let ?s = "\<lparr>f = [(5, 3), (1, 2)], N = [8, 4, 2, 1, 0], transitions = [1, 1, 1],
        registers = [(5, 0), (3, 0), (2, 0)]\<rparr>"
  have e: "run (Some 3) 100 ?s
     = Inr \<lparr>f = [(5, 3), (1, 2)], N = [3, 5, 0], transitions = [1, 1, 1, 0],
        registers = [(5, 0), (3, 0), (2, 0)]\<rparr>"
    by code_simp
  from run_reset_keeps_transitions [of 3 ?s 100]
  have "reset_trace (Some 3) ?s = ?s\<lparr>N := [3]\<rparr>" by simp
  with e show ?thesis by simp
qed

subsection \<open>Construction\<close>

lemma check_fractions_error: "check_fractions args = Inl e \<Longrightarrow> \<exists>c. e = RuntimeError c"
  by (induction args arbitrary: e)
     (auto split: pyval.splits if_splits sum.splits)

lemma check_fractions_ok_iff:
  "(\<exists>fs. check_fractions args = Inr fs) \<longleftrightarrow> (\<forall>frac \<in> set args. well_typed frac)"
proof (induction args)
  case Nil
  show ?case by simp
next
  case (Cons frac args)
  show ?case
  proof (cases "well_typed frac")
    case False
    then have "\<exists>e. check_fractions (frac # args) = Inl e"
      by (cases frac) (auto simp: well_typed_def split: pyval.splits sum.splits)
    with False show ?thesis by auto
  next
    case True
    then obtain n d where "frac = PTuple [PInt n, PInt d]"
    proof (cases frac)
      case (PTuple xs)
      with True have l: "length xs = 2" and a: "is_int (xs ! 0)" and b: "is_int (xs ! 1)"
        by (simp_all add: well_typed_def)
      from a obtain n where n: "xs ! 0 = PInt n" by (cases "xs ! 0") simp_all
      from b obtain d where d: "xs ! 1 = PInt d" by (cases "xs ! 1") simp_all
      from l n d have "xs = [PInt n, PInt d]"
        by (cases xs) (auto simp: length_Suc_conv)
      with PTuple that show ?thesis by simp
    qed (simp_all add: well_typed_def)
    with Cons True show ?thesis by (auto split: sum.splits)
  qed
qed

lemma check_fractions_pairs:
  "check_fractions (map (\<lambda>(n, d). PTuple [PInt n, PInt d]) fs) = Inr fs"
  by (induction fs) auto

lemma factorize_error:
  "factorize root n = Inl e \<Longrightarrow> e = TypeError \<or> e = OverflowError"
  using factorize_cases [of n root] by auto

lemma factorize_nonneg:
  "0 \<le> n \<Longrightarrow> n < overflow_bound \<Longrightarrow> \<exists>d. factorize root n = Inr d"
  using factorize_cases [of n root] by auto

lemma registers_loop_error:
  "registers_loop root fs regs = Inl e \<Longrightarrow> e = TypeError \<or> e = OverflowError"
proof (induction root fs regs rule: registers_loop.induct)
  case (1 root regs)
  then show ?case by simp
next
  case (2 root n d fs regs)
  show ?case
  proof (cases "factorize root n")
    case (Inl e')
    with "2.prems" have "e' = e" by simp
    with Inl show ?thesis by (auto dest: factorize_error)
  next
    case numerator: (Inr numerator)
    show ?thesis
    proof (cases "factorize root d")
      case (Inl e')
      with numerator "2.prems" have "e' = e" by simp
      with Inl show ?thesis by (auto dest: factorize_error)
    next
      case (Inr denominator)
      with numerator "2.prems" "2.IH" show ?thesis by simp
    qed
  qed
qed

lemma get_registers_error:
  "get_registers root s = Inl e \<Longrightarrow> e \<noteq> RuntimeError c"
  by (auto simp: get_registers_def dest: registers_loop_error)

lemma init_config_error_iff:
  "(\<exists>c. fst (init root self args N_0) = Some (RuntimeError c))
     \<longleftrightarrow> (\<not> is_int N_0 \<or> (\<exists>frac \<in> set args. \<not> well_typed frac))"
proof (cases N_0)
  case (PInt n0)
  show ?thesis
  proof (cases "check_fractions args")
    case (Inl e)
    with check_fractions_ok_iff [of args] have "\<exists>frac \<in> set args. \<not> well_typed frac" by auto
    moreover from Inl check_fractions_error obtain c where "e = RuntimeError c" by blast
    ultimately show ?thesis using PInt Inl by (simp add: init_def)
  next
    case (Inr fs)
    with check_fractions_ok_iff [of args] have ok: "\<forall>frac \<in> set args. well_typed frac" by auto
    have "\<not> (\<exists>c. fst (init root self args N_0) = Some (RuntimeError c))"
      using PInt Inr
      by (auto simp: init_def Let_def split: sum.splits dest: get_registers_error)
    with ok PInt show ?thesis by simp
  qed
qed (simp_all add: init_def)

lemma init_atomic:
  "fst (init root self args N_0) = Some (RuntimeError c) \<Longrightarrow> snd (init root self args N_0) = self"
  by (cases N_0)
     (auto simp: init_def Let_def split: sum.splits dest: get_registers_error)

text \<open>
  C7. \<^verbatim>\<open>__init__\<close> raises its RuntimeError (the spec's ConfigurationError) if and
  only if the starting value is not an integer or some fraction argument is not a
  2-element tuple or has a numerator or a denominator that is not an integer; and
  when it does, the object is as it was before the call: every such raise comes
  before the first assignment to an attribute. The same errors are what
  \<^verbatim>\<open>FractionGame(...)\<close> on a fresh object reports. (A negative numerator or
  denominator passes these checks and fails later, in \<^verbatim>\<open>get_registers\<close>, with
  another error: \<open>init_negative_numerator\<close> below.)
\<close>

theorem init_configuration_error:
  "((\<exists>c. fst (init root self args N_0) = Some (RuntimeError c))
      \<longleftrightarrow> (\<not> is_int N_0
           \<or> (\<exists>frac \<in> set args. \<not> is_tuple2 frac \<or> \<not> is_int (items frac ! 0)
                 \<or> \<not> is_int (items frac ! 1))))
   \<and> (\<forall>c. fst (init root self args N_0) = Some (RuntimeError c) \<longrightarrow> snd (init root self args N_0) = self)
   \<and> ((\<exists>c. new_game root args N_0 = Inl (RuntimeError c))
      \<longleftrightarrow> (\<exists>c. fst (init root blank args N_0) = Some (RuntimeError c)))"
proof (intro conjI)
  show "(\<exists>c. fst (init root self args N_0) = Some (RuntimeError c))
      \<longleftrightarrow> (\<not> is_int N_0
           \<or> (\<exists>frac \<in> set args. \<not> is_tuple2 frac \<or> \<not> is_int (items frac ! 0)
                 \<or> \<not> is_int (items frac ! 1)))"
    using init_config_error_iff [of root self args N_0] by (simp add: well_typed_def)
  show "\<forall>c. fst (init root self args N_0) = Some (RuntimeError c) \<longrightarrow> snd (init root self args N_0) = self"
    using init_atomic by blast
  show "(\<exists>c. new_game root args N_0 = Inl (RuntimeError c))
      \<longleftrightarrow> (\<exists>c. fst (init root blank args N_0) = Some (RuntimeError c))"
    by (cases "init root blank args N_0") (auto simp: new_game_def split: option.splits)
qed

theorem init_configuration_error_witness:
  "init exact_root \<lparr>f = [(1, 2)], N = [8, 4], transitions = [0], registers = [(2, 0)]\<rparr>
      [PTuple [PInt 3, PInt 2], PTuple [PInt 1, PFloat 5 (- 1)]] (PInt 2)
     = (Some (RuntimeError Denominator_not_int),
        \<lparr>f = [(1, 2)], N = [8, 4], transitions = [0], registers = [(2, 0)]\<rparr>)
   \<and> \<not> is_int (PFloat 5 (- 1))
   \<and> new_game exact_root [PTuple [PInt 3, PInt 2]] (PFloat 5 (- 1)) = Inl (RuntimeError Start_not_int)
   \<and> new_game exact_root [PTuple [PInt 3, PInt 2]] (PInt 2)
     = Inr \<lparr>f = [(3, 2)], N = [2], transitions = [], registers = [(3, 0), (2, 0)]\<rparr>"
proof -
  let ?self = "\<lparr>f = [(1, 2)], N = [8, 4], transitions = [0], registers = [(2, 0)]\<rparr>"
  let ?args = "[PTuple [PInt 3, PInt 2], PTuple [PInt 1, PFloat 5 (- 1)]]"
  have e: "fst (init exact_root ?self ?args (PInt 2)) = Some (RuntimeError Denominator_not_int)"
    by (simp add: init_def)
  with init_configuration_error [of exact_root ?self ?args "PInt 2"]
  have "snd (init exact_root ?self ?args (PInt 2)) = ?self" by blast
  with e have "init exact_root ?self ?args (PInt 2) = (Some (RuntimeError Denominator_not_int), ?self)"
    by (simp add: prod_eq_iff)
  moreover have "new_game exact_root [PTuple [PInt 3, PInt 2]] (PFloat 5 (- 1)) = Inl (RuntimeError Start_not_int)"
    by (simp add: new_game_def init_def)
  moreover have "new_game exact_root [PTuple [PInt 3, PInt 2]] (PInt 2)
     = Inr \<lparr>f = [(3, 2)], N = [2], transitions = [], registers = [(3, 0), (2, 0)]\<rparr>"
    by code_simp
  ultimately show ?thesis by simp
qed

text \<open>
  Outside the configuration errors: a negative numerator is an integer, so it passes
  the checks; \<^verbatim>\<open>factorize\<close> then raises TypeError inside \<^verbatim>\<open>get_registers\<close>, after the
  three attributes have been assigned. So does an integer too large for a double,
  with OverflowError.
\<close>

lemma init_negative_numerator:
  "init root blank [PTuple [PInt (- 1), PInt 2]] (PInt 8)
     = (Some TypeError, \<lparr>f = [(- 1, 2)], N = [8], transitions = [], registers = []\<rparr>)"
proof -
  have "- overflow_bound < - 1" using overflow_bound_pos by simp
  then have "factorize root (- 1) = Inl TypeError" by (intro factorize_neg) simp_all
  then show ?thesis by (simp add: init_def get_registers_def blank_def)
qed

lemma init_overflow_numerator:
  "init root blank [PTuple [PInt (2 ^ 1024), PInt 1]] (PInt 8)
     = (Some OverflowError, \<lparr>f = [(2 ^ 1024, 1)], N = [8], transitions = [], registers = []\<rparr>)"
proof -
  have "factorize root (2 ^ 1024) = Inl OverflowError"
    by (rule factorize_overflow) (simp add: overflow_bound_def)
  then show ?thesis by (simp add: init_def get_registers_def blank_def)
qed

subsection \<open>The register set\<close>

lemma dict_set_keys: "set (dict_keys (dict_set d k v)) = insert k (set (dict_keys d))"
proof (induction d)
  case Nil
  show ?case by (simp add: dict_keys_def)
next
  case (Cons x d)
  obtain k' v' where x: "x = (k', v')" by (cases x)
  with Cons show ?case by (simp add: dict_keys_def insert_commute)
qed

lemma dict_set_distinct: "distinct (dict_keys d) \<Longrightarrow> distinct (dict_keys (dict_set d k v))"
proof (induction d)
  case Nil
  then show ?case by (simp add: dict_keys_def)
next
  case (Cons x d)
  obtain k' v' where x: "x = (k', v')" by (cases x)
  have "set (map fst (dict_set d k v)) = insert k (set (map fst d))"
    using dict_set_keys [of d k v] by (simp add: dict_keys_def)
  with Cons x show ?case by (auto simp: dict_keys_def simp del: set_map)
qed

lemma dict_set_zero:
  "\<forall>(p, v) \<in> set d. v = 0 \<Longrightarrow> \<forall>(p, v) \<in> set (dict_set d k 0). v = 0"
  by (induction d) (auto split: if_splits)

lemma fold_dict_set_keys:
  "set (dict_keys (fold (\<lambda>factor r. dict_set r factor 0) ks regs)) = set ks \<union> set (dict_keys regs)"
proof (induction ks arbitrary: regs)
  case Nil
  show ?case by simp
next
  case (Cons k ks)
  have "set (dict_keys (fold (\<lambda>factor r. dict_set r factor 0) ks (dict_set regs k 0)))
      = set ks \<union> insert k (set (dict_keys regs))"
    by (simp only: Cons dict_set_keys)
  then show ?case by simp
qed

lemma fold_dict_set_distinct:
  "distinct (dict_keys regs) \<Longrightarrow>
   distinct (dict_keys (fold (\<lambda>factor r. dict_set r factor 0) ks regs))"
  by (induction ks arbitrary: regs) (simp_all add: dict_set_distinct)

lemma fold_dict_set_zero:
  "\<forall>(p, v) \<in> set regs. v = 0 \<Longrightarrow>
   \<forall>(p, v) \<in> set (fold (\<lambda>factor r. dict_set r factor 0) ks regs). v = 0"
proof (induction ks arbitrary: regs)
  case Nil
  then show ?case by simp
next
  case (Cons k ks)
  from Cons.prems have "\<forall>(p, v) \<in> set (dict_set regs k 0). v = 0" by (rule dict_set_zero)
  then have "\<forall>(p, v) \<in> set (fold (\<lambda>factor r. dict_set r factor 0) ks (dict_set regs k 0)). v = 0"
    by (rule Cons.IH)
  then show ?case by simp
qed

lemma zero_keys_keys:
  "set (dict_keys (zero_keys factors regs)) = set (dict_keys factors) \<union> set (dict_keys regs)"
  by (simp add: zero_keys_def fold_dict_set_keys)

lemma zero_keys_distinct:
  "distinct (dict_keys regs) \<Longrightarrow> distinct (dict_keys (zero_keys factors regs))"
  by (simp add: zero_keys_def fold_dict_set_distinct)

lemma zero_keys_zero:
  "\<forall>(p, v) \<in> set regs. v = 0 \<Longrightarrow> \<forall>(p, v) \<in> set (zero_keys factors regs). v = 0"
  unfolding zero_keys_def by (rule fold_dict_set_zero)

lemma prime_divisors_iff:
  "1 \<le> n \<Longrightarrow> prime_divisors n = {p. is_prime p \<and> p dvd n}"
  by (auto simp: prime_divisors_def is_prime_def dest: zdvd_imp_le)

lemma prime_divisors_0: "prime_divisors 0 = {}"
  by (simp add: prime_divisors_def)


lemma exact_root_accurate:
  "0 \<le> a \<Longrightarrow> a < overflow_bound \<Longrightarrow> accurate exact_root a"
  using exact_root_spec [of a] by (simp add: accurate_def)

lemma factorize_prime_divisors:
  assumes "accurate root n"
  shows "\<exists>d. factorize root n = Inr d \<and> set (dict_keys d) = prime_divisors n"
proof (cases "n = 0")
  case True
  then show ?thesis by (simp add: factorize_0 prime_divisors_0 dict_keys_def)
next
  case False
  with assms have n: "1 \<le> n" "n < overflow_bound"
    and acc: "0 \<le> root n" "n < (root n + 1) * (root n + 1)"
    by (simp_all add: accurate_def)
  from factorize_result [OF n, of root] obtain d where d: "factorize root n = Inr d" by blast
  from factorize_keys [OF n d acc] prime_divisors_iff [OF n(1)] d show ?thesis
    by (simp add: dict_keys_def)
qed

text \<open>
  On a program where the root is accurate at every numerator and denominator, the
  loop of \<^verbatim>\<open>get_registers\<close> adds exactly the primes of the program to the keys it
  started with.
\<close>

lemma registers_loop_result:
  assumes "\<forall>(n, d) \<in> set fs. accurate root n \<and> accurate root d"
  shows "\<exists>r. registers_loop root fs regs = Inr r
     \<and> set (dict_keys r) = set (dict_keys regs) \<union> (\<Union>(n, d) \<in> set fs. prime_divisors n \<union> prime_divisors d)
     \<and> (distinct (dict_keys regs) \<longrightarrow> distinct (dict_keys r))
     \<and> ((\<forall>(p, v) \<in> set regs. v = 0) \<longrightarrow> (\<forall>(p, v) \<in> set r. v = 0))"
  using assms
proof (induction fs arbitrary: regs)
  case Nil
  show ?case by simp
next
  case (Cons x fs)
  obtain n d where x: "x = (n, d)" by (cases x)
  with Cons.prems have nd: "accurate root n" "accurate root d" by simp_all
  from factorize_prime_divisors [OF nd(1)] obtain numerator
    where num: "factorize root n = Inr numerator" "set (dict_keys numerator) = prime_divisors n"
    by blast
  from factorize_prime_divisors [OF nd(2)] obtain denominator
    where den: "factorize root d = Inr denominator" "set (dict_keys denominator) = prime_divisors d"
    by blast
  define regs2 where "regs2 = zero_keys denominator (zero_keys numerator regs)"
  have step: "registers_loop root (x # fs) regs = registers_loop root fs regs2"
    using x num(1) den(1) by (simp add: regs2_def)
  have k2: "set (dict_keys regs2) = set (dict_keys regs) \<union> prime_divisors n \<union> prime_divisors d"
    unfolding regs2_def zero_keys_keys num(2) den(2) by blast
  have d2: "distinct (dict_keys regs) \<longrightarrow> distinct (dict_keys regs2)"
    unfolding regs2_def by (intro impI zero_keys_distinct)
  have z2: "(\<forall>(p, v) \<in> set regs. v = 0) \<longrightarrow> (\<forall>(p, v) \<in> set regs2. v = 0)"
    unfolding regs2_def by (intro impI zero_keys_zero)
  from Cons.prems have "\<forall>(n, d) \<in> set fs. accurate root n \<and> accurate root d" by simp
  from Cons.IH [OF this, of regs2] obtain r where r: "registers_loop root fs regs2 = Inr r"
    "set (dict_keys r) = set (dict_keys regs2) \<union> (\<Union>(n, d) \<in> set fs. prime_divisors n \<union> prime_divisors d)"
    "distinct (dict_keys regs2) \<longrightarrow> distinct (dict_keys r)"
    "(\<forall>(p, v) \<in> set regs2. v = 0) \<longrightarrow> (\<forall>(p, v) \<in> set r. v = 0)"
    by blast
  have "(\<Union>(n, d) \<in> set (x # fs). prime_divisors n \<union> prime_divisors d)
      = prime_divisors n \<union> prime_divisors d \<union> (\<Union>(n, d) \<in> set fs. prime_divisors n \<union> prime_divisors d)"
    by (simp add: x)
  then have k: "set (dict_keys r) = set (dict_keys regs)
      \<union> (\<Union>(n, d) \<in> set (x # fs). prime_divisors n \<union> prime_divisors d)"
    unfolding r(2) k2 by blast
  have l: "registers_loop root (x # fs) regs = Inr r" using step r(1) by simp
  from d2 r(3) have dd: "distinct (dict_keys regs) \<longrightarrow> distinct (dict_keys r)" by blast
  from z2 r(4) have zz: "(\<forall>(p, v) \<in> set regs. v = 0) \<longrightarrow> (\<forall>(p, v) \<in> set r. v = 0)" by blast
  from l k dd zz show ?case by blast
qed

lemma get_registers_accurate:
  assumes "\<forall>(n, d) \<in> set (f s). accurate root n \<and> accurate root d"
  shows "\<exists>regs. get_registers root s = Inr regs
     \<and> set (dict_keys regs) = (\<Union>(n, d) \<in> set (f s). prime_divisors n \<union> prime_divisors d)
     \<and> distinct (dict_keys regs) \<and> (\<forall>(p, v) \<in> set regs. v = 0)"
  using registers_loop_result [OF assms, of "[]"]
  by (simp add: get_registers_def dict_keys_def)

lemma get_registers_example:
  "get_registers exact_root
      \<lparr>f = [(15, 2), (0, 1), (1, 7)], N = [2], transitions = [], registers = []\<rparr>
     = Inr [(3, 0), (5, 0), (2, 0), (7, 0)]
   \<and> prime_divisors 15 = {3, 5} \<and> prime_divisors 2 = {2} \<and> prime_divisors 0 = {}
   \<and> prime_divisors 1 = {} \<and> prime_divisors 7 = {7}"
proof -
  let ?s = "\<lparr>f = [(15, 2), (0, 1), (1, 7)], N = [2], transitions = [], registers = []\<rparr>"
  have "get_registers exact_root ?s = Inr [(3, 0), (5, 0), (2, 0), (7, 0)]" by code_simp
  moreover have "prime_divisors 15 = {3, 5}" by code_simp
  moreover have "prime_divisors 2 = {2}" by code_simp
  moreover have "prime_divisors 0 = {}" by code_simp
  moreover have "prime_divisors 1 = {}" by code_simp
  moreover have "prime_divisors 7 = {7}" by code_simp
  ultimately show ?thesis by simp
qed

text \<open>
  C6, at the program \<^verbatim>\<open>(2**1024, 1)\<close>. The only prime of the program is 2, so
  the register set is \<open>{2}\<close>. \<^verbatim>\<open>get_registers\<close> returns no register set: the
  numerator does not convert to a double, \<^verbatim>\<open>factorize\<close> raises OverflowError, and so
  does the constructor, which calls \<^verbatim>\<open>get_registers\<close>.
\<close>

theorem get_registers_overflows:
  "get_registers root \<lparr>f = [(2 ^ 1024, 1)], N = [2], transitions = [], registers = []\<rparr>
     = Inl OverflowError
   \<and> new_game root [PTuple [PInt (2 ^ 1024), PInt 1]] (PInt 2) = Inl OverflowError
   \<and> (\<Union>(n, d) \<in> set [(2 ^ 1024, 1)]. prime_divisors n \<union> prime_divisors d) = {2}"
proof -
  have o: "factorize root (2 ^ 1024) = Inl OverflowError"
    by (rule factorize_overflow) (simp add: overflow_bound_def)
  have "prime_divisors (2 ^ 1024) = {2}"
  proof (intro set_eqI iffI)
    fix p assume "p \<in> prime_divisors (2 ^ 1024)"
    then have p: "is_prime p" "p dvd 2 ^ 1024" by (simp_all add: prime_divisors_def)
    then have "p dvd 2" by (rule is_prime_dvd_power)
    then have "p \<le> 2" by (rule zdvd_imp_le) simp
    moreover from p(1) have "1 < p" by (simp add: is_prime_def)
    ultimately show "p \<in> {2}" by simp
  next
    fix p :: int assume "p \<in> {2}"
    then have p: "p = 2" by simp
    have "is_prime 2" by (simp add: is_prime_def)
    moreover have "(2::int) dvd 2 ^ 1024" by simp
    moreover have "(2::int) \<le> 2 ^ 1024" by simp
    ultimately show "p \<in> prime_divisors (2 ^ 1024)" using p by (simp add: prime_divisors_def)
  qed
  moreover have "prime_divisors 1 = {}" by (simp add: prime_divisors_def)
  ultimately have "(\<Union>(n, d) \<in> set [(2 ^ 1024, 1)]. prime_divisors n \<union> prime_divisors d) = {2}"
    by simp
  with o show ?thesis
    by (simp add: get_registers_def new_game_def init_def blank_def)
qed

text \<open>
  The other way the same root breaks the register set: where \<^verbatim>\<open>int(n**0.5)\<close> comes
  out below the square root of a numerator \<open>p * p\<close>, \<open>p\<close> a prime, the register recorded
  is \<open>p * p\<close>, which is not a prime, and the prime \<open>p\<close> is missing.
\<close>

lemma get_registers_square_of_prime:
  assumes "is_prime p" "p * p < overflow_bound" "root (p * p) < p"
  shows "get_registers root \<lparr>f = [(p * p, 1)], N = [2], transitions = [], registers = []\<rparr>
     = Inr [(p * p, 0)] \<and> \<not> is_prime (p * p)"
  using factorize_square_of_prime [of p root] assms
  by (simp add: get_registers_def factorize_1 zero_keys_def dict_keys_def)


subsection \<open>A zero denominator\<close>

lemma registers_loop_returns:
  assumes "\<forall>(n, d) \<in> set fs. 0 \<le> n \<and> n < overflow_bound \<and> 0 \<le> d \<and> d < overflow_bound"
  shows "\<exists>r. registers_loop root fs regs = Inr r"
  using assms
proof (induction fs arbitrary: regs)
  case Nil
  show ?case by simp
next
  case (Cons x fs)
  obtain n d where x: "x = (n, d)" by (cases x)
  with Cons.prems have nd: "0 \<le> n" "n < overflow_bound" "0 \<le> d" "d < overflow_bound"
    by simp_all
  from factorize_nonneg [OF nd(1,2)] obtain numerator
    where num: "factorize root n = Inr numerator" by blast
  from factorize_nonneg [OF nd(3,4)] obtain denominator
    where den: "factorize root d = Inr denominator" by blast
  from Cons.prems
  have "\<forall>(n, d) \<in> set fs. 0 \<le> n \<and> n < overflow_bound \<and> 0 \<le> d \<and> d < overflow_bound" by simp
  from Cons.IH [OF this, of "zero_keys denominator (zero_keys numerator regs)"]
  show ?case using x num den by simp
qed

lemma new_game_pairs:
  assumes "\<forall>(n, d) \<in> set fs. 0 \<le> n \<and> n < overflow_bound \<and> 0 \<le> d \<and> d < overflow_bound"
  shows "\<exists>regs. new_game root (map (\<lambda>(n, d). PTuple [PInt n, PInt d]) fs) (PInt n0)
           = Inr \<lparr>f = fs, N = [n0], transitions = [], registers = regs\<rparr>"
proof -
  from registers_loop_returns [OF assms, of root "[]"] obtain regs
    where "registers_loop root fs [] = Inr regs" by blast
  then show ?thesis
    by (simp add: new_game_def init_def check_fractions_pairs get_registers_def blank_def)
qed

text \<open>
  C9. A program with a fraction whose denominator is 0 (here fraction \<open>k\<close>) is
  accepted by the constructor, whatever the starting value, when its numerators and
  denominators are non-negative integers that convert to a double (below
  \<open>2\<^sup>1\<^sup>0\<^sup>2\<^sup>4 - 2\<^sup>9\<^sup>7\<^sup>0\<close>): the zero denominator is not looked at. In every engine with
  that program, a step whose scan reaches fraction \<open>k\<close> (no earlier fraction divides
  evenly) fails with ZeroDivisionError: the fraction is not skipped and the engine
  does not halt. \<^verbatim>\<open>run\<close> passes the error on.
\<close>

theorem zero_denominator_fails:
  assumes "k < length fs" and "snd (fs ! k) = 0"
  shows "((\<forall>(n, d) \<in> set fs. 0 \<le> n \<and> n < overflow_bound \<and> 0 \<le> d \<and> d < overflow_bound)
        \<longrightarrow> (\<exists>regs. new_game root (map (\<lambda>(n, d). PTuple [PInt n, PInt d]) fs) (PInt n0)
                = Inr \<lparr>f = fs, N = [n0], transitions = [], registers = regs\<rparr>))
     \<and> (\<forall>s :: game. f s = fs \<and> N s \<noteq> []
            \<and> (\<forall>j < k. snd (fs ! j) \<noteq> 0 \<and> (fst (fs ! j) * last (N s)) mod snd (fs ! j) \<noteq> 0)
          \<longrightarrow> run_step s = Inl ZeroDivisionError
              \<and> (last (N s) \<noteq> 0 \<longrightarrow> run None max_steps s = Inl ZeroDivisionError))"
proof (intro conjI allI impI)
  assume "\<forall>(n, d) \<in> set fs. 0 \<le> n \<and> n < overflow_bound \<and> 0 \<le> d \<and> d < overflow_bound"
  then show "\<exists>regs. new_game root (map (\<lambda>(n, d). PTuple [PInt n, PInt d]) fs) (PInt n0)
            = Inr \<lparr>f = fs, N = [n0], transitions = [], registers = regs\<rparr>"
    by (rule new_game_pairs)
next
  fix s :: game
  assume h: "f s = fs \<and> N s \<noteq> []
            \<and> (\<forall>j < k. snd (fs ! j) \<noteq> 0 \<and> (fst (fs ! j) * last (N s)) mod snd (fs ! j) \<noteq> 0)"
  then have "scan fs 0 (last (N s)) = Inl ZeroDivisionError"
    using scan_zero_denominator [OF assms(1) _ assms(2), of "last (N s)" 0] by blast
  moreover from assms(1) have "fs \<noteq> []" by auto
  ultimately show st: "run_step s = Inl ZeroDivisionError"
    using h by (simp add: run_step_def)
  assume "last (N s) \<noteq> 0"
  with h st show "run None max_steps s = Inl ZeroDivisionError"
    by (simp add: run_def reset_trace_def run_loop_error)
qed

theorem zero_denominator_fails_witness:
  "new_game exact_root [PTuple [PInt 2, PInt 3], PTuple [PInt 1, PInt 0]] (PInt 8)
     = Inr \<lparr>f = [(2, 3), (1, 0)], N = [8], transitions = [], registers = [(2, 0), (3, 0)]\<rparr>
   \<and> run_step \<lparr>f = [(2, 3), (1, 0)], N = [8], transitions = [], registers = [(2, 0), (3, 0)]\<rparr>
     = Inl ZeroDivisionError
   \<and> run None 100 \<lparr>f = [(2, 3), (1, 0)], N = [8], transitions = [], registers = [(2, 0), (3, 0)]\<rparr>
     = Inl ZeroDivisionError"
proof -
  let ?fs = "[(2, 3), (1, 0)] :: (int \<times> int) list"
  let ?s = "\<lparr>f = ?fs, N = [8], transitions = [], registers = [(2, 0), (3, 0)]\<rparr>"
  have h1: "1 < length ?fs" by simp
  have h2: "snd (?fs ! 1) = 0" by simp
  have h3: "\<forall>(n, d) \<in> set ?fs. 0 \<le> n \<and> n < overflow_bound \<and> 0 \<le> d \<and> d < overflow_bound"
    by (simp add: overflow_bound_def)
  have pre: "f ?s = ?fs \<and> N ?s \<noteq> []
      \<and> (\<forall>j < 1. snd (?fs ! j) \<noteq> 0 \<and> (fst (?fs ! j) * last (N ?s)) mod snd (?fs ! j) \<noteq> 0)"
    by simp
  from zero_denominator_fails [OF h1 h2, of exact_root 8 100] h3 pre
  have "\<exists>regs. new_game exact_root (map (\<lambda>(n, d). PTuple [PInt n, PInt d]) ?fs) (PInt 8)
            = Inr \<lparr>f = ?fs, N = [8], transitions = [], registers = regs\<rparr>"
    and "run_step ?s = Inl ZeroDivisionError"
    and "last (N ?s) \<noteq> 0 \<longrightarrow> run None 100 ?s = Inl ZeroDivisionError"
    by blast+
  moreover have "new_game exact_root [PTuple [PInt 2, PInt 3], PTuple [PInt 1, PInt 0]] (PInt 8)
     = Inr \<lparr>f = [(2, 3), (1, 0)], N = [8], transitions = [], registers = [(2, 0), (3, 0)]\<rparr>"
    by code_simp
  ultimately show ?thesis by simp
qed

section \<open>The generated program\<close>

text \<open>
  The values below use only the factorizations of 1 and of small primes, and these do
  not depend on what \<^verbatim>\<open>int(a**0.5)\<close> is: the generated text is the same for every
  root, so it is computed with the exact one.
\<close>

lemma factorize_small:
  "factorize root 1 = Inr []" "factorize root 2 = Inr [(2, 1)]"
  "factorize root 3 = Inr [(3, 1)]" "factorize root 5 = Inr [(5, 1)]"
proof -
  have b: "(2::int) < overflow_bound" "(3::int) < overflow_bound" "(5::int) < overflow_bound"
    by (simp_all add: overflow_bound_def)
  have p: "is_prime 2" "is_prime 3" "is_prime 5" by code_simp+
  show "factorize root 1 = Inr []" by (rule factorize_1)
  show "factorize root 2 = Inr [(2, 1)]" using p(1) b(1) by (rule factorize_prime)
  show "factorize root 3 = Inr [(3, 1)]" using p(2) b(2) by (rule factorize_prime)
  show "factorize root 5 = Inr [(5, 1)]" using p(3) b(3) by (rule factorize_prime)
qed

lemma registers_loop_cong:
  "\<forall>(n, d) \<in> set fs. factorize root n = factorize root' n \<and> factorize root d = factorize root' d
   \<Longrightarrow> registers_loop root fs regs = registers_loop root' fs regs"
  by (induction fs arbitrary: regs) (auto split: sum.splits)

lemma new_game_cong:
  assumes "check_fractions args = Inr fs"
    and "\<forall>(n, d) \<in> set fs. factorize root n = factorize root' n \<and> factorize root d = factorize root' d"
  shows "new_game root args N_0 = new_game root' args N_0"
  using assms(1) registers_loop_cong [OF assms(2), of "[]"]
  by (cases N_0) (simp_all add: new_game_def init_def get_registers_def)

lemma branches_cong:
  "\<forall>(n, d) \<in> set fs. factorize root n = factorize root' n \<and> factorize root d = factorize root' d
   \<Longrightarrow> branches root i fs python_program endloop = branches root' i fs python_program endloop"
  by (induction fs arbitrary: i python_program endloop) (auto split: sum.splits)

lemma python_equivalent_lines_cong:
  assumes "N s = n0 # ns" and "factorize root n0 = factorize root' n0"
    and "\<forall>(n, d) \<in> set (f s). factorize root n = factorize root' n \<and> factorize root d = factorize root' d"
  shows "python_equivalent_lines root max_steps s = python_equivalent_lines root' max_steps s"
proof (cases "factorize root' n0")
  case (Inl e)
  with assms(1,2) show ?thesis by (simp add: python_equivalent_lines_def)
next
  case (Inr N_0_factors)
  have "branches root 0 (f s) python_program None = branches root' 0 (f s) python_program None"
    for python_program
    using assms(3) by (rule branches_cong)
  with Inr assms(1,2) show ?thesis by (simp add: python_equivalent_lines_def Let_def)
qed

text \<open>
  C5, at the program \<open>(1/2, 3/1, 1/5)\<close> with starting value 2. The constructor
  accepts it. Fraction B has denominator 1 and is not the first, and it is emitted
  as \<^verbatim>\<open>else\<close>; but the chain goes on after it with an \<^verbatim>\<open>elif\<close> for fraction C and
  a second \<^verbatim>\<open>else\<close>, so B's branch is not the final alternative, and an
  \<^verbatim>\<open>elif\<close> after an \<^verbatim>\<open>else\<close> is not Python.
\<close>

theorem python_equivalent_else_not_final:
  "new_game root [PTuple [PInt 1, PInt 2], PTuple [PInt 3, PInt 1], PTuple [PInt 1, PInt 5]] (PInt 2)
     = Inr \<lparr>f = [(1, 2), (3, 1), (1, 5)], N = [2], transitions = [],
            registers = [(2, 0), (3, 0), (5, 0)]\<rparr>
   \<and> python_equivalent_lines root 100
       \<lparr>f = [(1, 2), (3, 1), (1, 5)], N = [2], transitions = [],
        registers = [(2, 0), (3, 0), (5, 0)]\<rparr>
     = (Inr [''# Starting conditions'',
             ''registers = {}'',
             ''registers[2] = 1'',
             ''registers[3] = 0'',
             ''registers[5] = 0'',
             newline @ ''# Main Loop'',
             ''counter = 0'',
             ''while sum(registers.values()) > 0:'',
             tab @ ''counter += 1'',
             tab @ ''if (registers[2] >= 1): # fraction A (1/2)'',
             tab @ tab @ ''registers[2] -= 1'',
             tab @ ''else: # fraction B (3/1)'',
             tab @ tab @ ''registers[3] += 1'',
             tab @ ''elif (registers[5] >= 1): # fraction C (1/5)'',
             tab @ tab @ ''registers[5] -= 1'',
             tab @ ''else:'',
             tab @ tab @ ''registers.clear()'',
             tab @ ''print(' * '.join([str(factor) + '^' + str(registers[factor]) for factor in registers.keys()]))'',
             tab @ ''if counter > 100:'',
             tab @ tab @ ''break''],
        \<lparr>f = [(1, 2), (3, 1), (1, 5)], N = [2], transitions = [],
         registers = [(2, 1), (3, 0), (5, 0)]\<rparr>)"
proof -
  let ?args = "[PTuple [PInt 1, PInt 2], PTuple [PInt 3, PInt 1], PTuple [PInt 1, PInt 5]]"
  let ?s = "\<lparr>f = [(1, 2), (3, 1), (1, 5)], N = [2], transitions = [],
            registers = [(2, 0), (3, 0), (5, 0)]\<rparr>"
  have "new_game root ?args (PInt 2) = new_game exact_root ?args (PInt 2)"
    by (rule new_game_cong [where fs = "[(1, 2), (3, 1), (1, 5)]"])
       (simp_all add: factorize_small)
  moreover have "python_equivalent_lines root 100 ?s = python_equivalent_lines exact_root 100 ?s"
    by (rule python_equivalent_lines_cong [where ?n0.0 = 2 and ns = "[]"])
       (simp_all add: factorize_small)
  moreover have
    "new_game exact_root [PTuple [PInt 1, PInt 2], PTuple [PInt 3, PInt 1], PTuple [PInt 1, PInt 5]] (PInt 2)
       = Inr \<lparr>f = [(1, 2), (3, 1), (1, 5)], N = [2], transitions = [],
              registers = [(2, 0), (3, 0), (5, 0)]\<rparr>
     \<and> python_equivalent_lines exact_root 100
         \<lparr>f = [(1, 2), (3, 1), (1, 5)], N = [2], transitions = [],
          registers = [(2, 0), (3, 0), (5, 0)]\<rparr>
       = (Inr [''# Starting conditions'',
               ''registers = {}'',
               ''registers[2] = 1'',
               ''registers[3] = 0'',
               ''registers[5] = 0'',
               newline @ ''# Main Loop'',
               ''counter = 0'',
               ''while sum(registers.values()) > 0:'',
               tab @ ''counter += 1'',
               tab @ ''if (registers[2] >= 1): # fraction A (1/2)'',
               tab @ tab @ ''registers[2] -= 1'',
               tab @ ''else: # fraction B (3/1)'',
               tab @ tab @ ''registers[3] += 1'',
               tab @ ''elif (registers[5] >= 1): # fraction C (1/5)'',
               tab @ tab @ ''registers[5] -= 1'',
               tab @ ''else:'',
               tab @ tab @ ''registers.clear()'',
               tab @ ''print(' * '.join([str(factor) + '^' + str(registers[factor]) for factor in registers.keys()]))'',
               tab @ ''if counter > 100:'',
               tab @ tab @ ''break''],
          \<lparr>f = [(1, 2), (3, 1), (1, 5)], N = [2], transitions = [],
           registers = [(2, 1), (3, 0), (5, 0)]\<rparr>)"
    by code_simp
  ultimately show ?thesis by simp
qed

text \<open>
  With \<open>1/1\<close> as the last fraction the \<^verbatim>\<open>else\<close> is final, but its body is empty
  (neither 1 nor 1 has a prime factor), and the next line is back at the loop's
  indentation.
\<close>

lemma python_equivalent_empty_else:
  "python_equivalent_lines exact_root 100
       \<lparr>f = [(1, 2), (1, 1)], N = [8], transitions = [], registers = [(2, 0)]\<rparr>
     = (Inr [''# Starting conditions'',
             ''registers = {}'',
             ''registers[2] = 3'',
             newline @ ''# Main Loop'',
             ''counter = 0'',
             ''while sum(registers.values()) > 0:'',
             tab @ ''counter += 1'',
             tab @ ''if (registers[2] >= 1): # fraction A (1/2)'',
             tab @ tab @ ''registers[2] -= 1'',
             tab @ ''else: # fraction B (1/1)'',
             tab @ ''print(' * '.join([str(factor) + '^' + str(registers[factor]) for factor in registers.keys()]))'',
             tab @ ''if counter > 100:'',
             tab @ tab @ ''break''],
        \<lparr>f = [(1, 2), (1, 1)], N = [8], transitions = [], registers = [(2, 3)]\<rparr>)"
  by code_simp

text \<open>
  Where the fraction with denominator 1 is the last one and its numerator has a prime
  factor, the text is one chain, closed by that fraction's \<^verbatim>\<open>else\<close>.
\<close>

lemma python_equivalent_last_else:
  "python_equivalent_lines exact_root 100
       \<lparr>f = [(3, 2), (5, 1)], N = [8], transitions = [], registers = [(3, 0), (2, 0), (5, 0)]\<rparr>
     = (Inr [''# Starting conditions'',
             ''registers = {}'',
             ''registers[2] = 3'',
             ''registers[3] = 0'',
             ''registers[5] = 0'',
             newline @ ''# Main Loop'',
             ''counter = 0'',
             ''while sum(registers.values()) > 0:'',
             tab @ ''counter += 1'',
             tab @ ''if (registers[2] >= 1): # fraction A (3/2)'',
             tab @ tab @ ''registers[2] -= 1'',
             tab @ tab @ ''registers[3] += 1'',
             tab @ ''else: # fraction B (5/1)'',
             tab @ tab @ ''registers[5] += 1'',
             tab @ ''print(' * '.join([str(factor) + '^' + str(registers[factor]) for factor in registers.keys()]))'',
             tab @ ''if counter > 100:'',
             tab @ tab @ ''break''],
        \<lparr>f = [(3, 2), (5, 1)], N = [8], transitions = [], registers = [(3, 0), (2, 3), (5, 0)]\<rparr>)"
  by code_simp

text \<open>
  The registers that \<^verbatim>\<open>python_equivalent\<close> writes out are those of \<^verbatim>\<open>get_registers\<close>
  overlaid with the factors of the starting value, in the engine's own dictionary: a
  prime of the starting value that no fraction has becomes a register too.
\<close>

lemma python_equivalent_start_registers:
  "python_equivalent_lines exact_root 100
       \<lparr>f = [(1, 2)], N = [3], transitions = [], registers = [(2, 0)]\<rparr>
     = (Inr [''# Starting conditions'',
             ''registers = {}'',
             ''registers[2] = 0'',
             ''registers[3] = 1'',
             newline @ ''# Main Loop'',
             ''counter = 0'',
             ''while sum(registers.values()) > 0:'',
             tab @ ''counter += 1'',
             tab @ ''if (registers[2] >= 1): # fraction A (1/2)'',
             tab @ tab @ ''registers[2] -= 1'',
             tab @ ''else:'',
             tab @ tab @ ''registers.clear()'',
             tab @ ''print(' * '.join([str(factor) + '^' + str(registers[factor]) for factor in registers.keys()]))'',
             tab @ ''if counter > 100:'',
             tab @ tab @ ''break''],
        \<lparr>f = [(1, 2)], N = [3], transitions = [], registers = [(2, 0), (3, 1)]\<rparr>)"
  by code_simp

end
